theory Spec2Isabelle
  imports Main
begin

section \<open>The signaling server: data model\<close>

text \<open>
  The model follows the complete server of the source file (the part that starts with
  the import of \<open>supabaseAdmin\<close>); the shorter copy after it has the same \<open>tryMatch\<close>,
  \<open>handleDisconnect\<close> and start-searching handler.

  The server keeps three module-level stores: \<open>users\<close> (a Map from socket id to a
  User object), \<open>waitingPool\<close> (an array of socket ids) and \<open>rooms\<close> (a Map from room
  id to a pair of socket ids). Socket ids, room ids and persistent ids are JavaScript
  strings; an optional field is an \<open>option\<close>. A JavaScript truthiness test on an
  optional string fails on \<open>undefined\<close> and on the empty string.

  Each handler runs to completion, so a handler is a function from the state before to
  the state after. What it sends is appended to \<open>emitted\<close>. Console output is left out.
  The payloads of the relay and of the report (sdp, candidate, message, screenshot, chat
  log) are strings that the server passes on; the screenshot is one that \<open>Buffer.from\<close>
  accepts.
\<close>

datatype UserState = IDLE | SEARCHING | IN_CHAT

datatype Gender = male | female | couple

record Profile =
  username :: "string option"
  avatar_url :: "string option"
  dob :: "string option"
  gender :: "Gender option"
  profileId :: string

record User =
  state :: UserState
  roomId :: "string option"
  profile :: "Profile option"
  persistentId :: "string option"

text \<open>The events the server sends with \<open>io.to(target).emit(name, payload)\<close>.\<close>

datatype OutEvent =
    MatchFound string string bool "Profile option"
  | PartnerDisconnected
  | AutoSearching
  | OfferOut string string
  | AnswerOut string string
  | IceCandidateOut string string
  | ChatMessageOut string string
  | ReportSuccessful
  | ReportFailed

text \<open>
  What a handler does to the outside world, in program order: an emit to one socket, or
  the call of the report function \<open>create-report-mvp\<close> with the reporting and the
  reported persistent id, the screenshot and the chat log.
\<close>

datatype Effect =
    Emit string OutEvent
  | InvokeReport "string option" "string option" string string

record ServerState =
  users :: "string \<rightharpoonup> User"
  waitingPool :: "string list"
  rooms :: "string \<rightharpoonup> (string \<times> string)"
  uuidCalls :: nat
  emitted :: "Effect list"

definition initialState :: ServerState where
  "initialState =
     \<lparr>users = Map.empty, waitingPool = [], rooms = Map.empty, uuidCalls = 0, emitted = []\<rparr>"

text \<open>The events a socket sends, each with the id of the sending socket first.
  \<open>ReportSettled\<close> is the return of the awaited report call.\<close>

datatype Event =
    Connection string
  | StartSearching string Profile
  | StopSearching string
  | SkipChat string
  | StopChat string
  | Offer string string string
  | Answer string string string
  | IceCandidate string string string
  | ChatMessage string string string
  | InitiateReport string string string string
  | ReportSettled string bool
  | Disconnect string

section \<open>Helpers\<close>

definition truthy :: "string option \<Rightarrow> bool" where
  "truthy x = (case x of None \<Rightarrow> False | Some v \<Rightarrow> v \<noteq> [])"

definition isSearching :: "User option \<Rightarrow> bool" where
  "isSearching u = (case u of None \<Rightarrow> False | Some v \<Rightarrow> state v = SEARCHING)"

definition emit :: "string \<Rightarrow> OutEvent \<Rightarrow> ServerState \<Rightarrow> ServerState" where
  "emit target ev s = s\<lparr>emitted := emitted s @ [Emit target ev]\<rparr>"

text \<open>A field assignment through a reference obtained with \<open>users.get(c)\<close>.\<close>

definition updateUser :: "string \<Rightarrow> (User \<Rightarrow> User) \<Rightarrow> ServerState \<Rightarrow> ServerState" where
  "updateUser c f s =
     (case users s c of
        None \<Rightarrow> s
      | Some u \<Rightarrow> s\<lparr>users := (users s)(c \<mapsto> f u)\<rparr>)"

definition toSearching :: "User \<Rightarrow> User" where
  "toSearching u = u\<lparr>state := SEARCHING, roomId := None\<rparr>"

definition toIdle :: "User \<Rightarrow> User" where
  "toIdle u = u\<lparr>state := IDLE, roomId := None\<rparr>"

definition toInChat :: "string \<Rightarrow> User \<Rightarrow> User" where
  "toInChat r u = u\<lparr>state := IN_CHAT, roomId := Some r\<rparr>"

text \<open>\<open>waitingPool.push(c)\<close> and \<open>waitingPool.unshift(c)\<close>.\<close>

definition push :: "string \<Rightarrow> ServerState \<Rightarrow> ServerState" where
  "push c s = s\<lparr>waitingPool := waitingPool s @ [c]\<rparr>"

definition unshift :: "string \<Rightarrow> ServerState \<Rightarrow> ServerState" where
  "unshift c s = s\<lparr>waitingPool := c # waitingPool s\<rparr>"

definition pushIfAbsent :: "string \<Rightarrow> ServerState \<Rightarrow> ServerState" where
  "pushIfAbsent c s = (if c \<in> set (waitingPool s) then s else push c s)"

definition unshiftIfAbsent :: "string \<Rightarrow> ServerState \<Rightarrow> ServerState" where
  "unshiftIfAbsent c s = (if c \<in> set (waitingPool s) then s else unshift c s)"

text \<open>\<open>indexOf\<close> followed by \<open>splice(index, 1)\<close>: the first occurrence goes.\<close>

definition removeFromPool :: "string \<Rightarrow> ServerState \<Rightarrow> ServerState" where
  "removeFromPool c s = s\<lparr>waitingPool := remove1 c (waitingPool s)\<rparr>"

definition deleteRoom :: "string \<Rightarrow> ServerState \<Rightarrow> ServerState" where
  "deleteRoom r s = s\<lparr>rooms := (rooms s)(r := None)\<rparr>"

text \<open>\<open>room.users.find(id => id !== socketId)\<close> followed by the truthiness test
  on the result.\<close>

definition partnerIn :: "string \<Rightarrow> string \<times> string \<Rightarrow> string option" where
  "partnerIn socketId room =
     (case find (\<lambda>i. i \<noteq> socketId) [fst room, snd room] of
        None \<Rightarrow> None
      | Some p \<Rightarrow> if p = [] then None else Some p)"

section \<open>tryMatch\<close>

text \<open>
  \<open>uuidv4\<close> is the library's generator; the model takes the sequence of its results
  as a parameter and counts the calls in \<open>uuidCalls\<close>.

  \<open>matchStep\<close> is one pass through the body of the while loop.
\<close>

definition createRoom :: "(nat \<Rightarrow> string) \<Rightarrow> string \<Rightarrow> string \<Rightarrow> ServerState \<Rightarrow> ServerState" where
  "createRoom uuidv4 user1Id user2Id s =
     (let newRoom = uuidv4 (uuidCalls s);
          s1 = s\<lparr>uuidCalls := Suc (uuidCalls s)\<rparr>;
          s2 = s1\<lparr>rooms := (rooms s1)(newRoom \<mapsto> (user1Id, user2Id))\<rparr>;
          s3 = updateUser user1Id (toInChat newRoom) s2;
          s4 = updateUser user2Id (toInChat newRoom) s3;
          s5 = emit user1Id
                 (MatchFound newRoom user2Id True
                    (case users s4 user2Id of None \<Rightarrow> None | Some u \<Rightarrow> profile u)) s4
      in emit user2Id
           (MatchFound newRoom user1Id False
              (case users s5 user1Id of None \<Rightarrow> None | Some u \<Rightarrow> profile u)) s5)"

definition matchStep :: "(nat \<Rightarrow> string) \<Rightarrow> ServerState \<Rightarrow> ServerState" where
  "matchStep uuidv4 s =
     (case waitingPool s of
        user1Id # user2Id # rest \<Rightarrow>
          (let s1 = s\<lparr>waitingPool := rest\<rparr> in
           if \<not> isSearching (users s1 user1Id) then
             (if user2Id \<noteq> [] then unshift user2Id s1 else s1)
           else if \<not> isSearching (users s1 user2Id) then
             (if user1Id \<noteq> [] then unshift user1Id s1 else s1)
           else createRoom uuidv4 user1Id user2Id s1)
      | _ \<Rightarrow> s)"

lemma waitingPool_emit [simp]: "waitingPool (emit t e s) = waitingPool s"
  by (simp add: emit_def)

lemma users_emit [simp]: "users (emit t e s) = users s"
  by (simp add: emit_def)

lemma rooms_emit [simp]: "rooms (emit t e s) = rooms s"
  by (simp add: emit_def)

lemma uuidCalls_emit [simp]: "uuidCalls (emit t e s) = uuidCalls s"
  by (simp add: emit_def)

lemma emitted_emit [simp]: "emitted (emit t e s) = emitted s @ [Emit t e]"
  by (simp add: emit_def)

lemma waitingPool_updateUser [simp]: "waitingPool (updateUser c f s) = waitingPool s"
  by (simp add: updateUser_def split: option.splits)

lemma rooms_updateUser [simp]: "rooms (updateUser c f s) = rooms s"
  by (simp add: updateUser_def split: option.splits)

lemma uuidCalls_updateUser [simp]: "uuidCalls (updateUser c f s) = uuidCalls s"
  by (simp add: updateUser_def split: option.splits)

lemma emitted_updateUser [simp]: "emitted (updateUser c f s) = emitted s"
  by (simp add: updateUser_def split: option.splits)

lemma users_updateUser:
  "users (updateUser c f s) d = (if d = c then map_option f (users s c) else users s d)"
  by (simp add: updateUser_def split: option.splits)

lemma dom_users_updateUser [simp]: "dom (users (updateUser c f s)) = dom (users s)"
  by (auto simp: updateUser_def split: option.splits)

lemma waitingPool_createRoom [simp]:
  "waitingPool (createRoom uuidv4 a b s) = waitingPool s"
  by (simp add: createRoom_def Let_def)

lemma dom_users_createRoom [simp]:
  "dom (users (createRoom uuidv4 a b s)) = dom (users s)"
  by (simp add: createRoom_def Let_def)

lemma matchStep_shrinks:
  "2 \<le> length (waitingPool s) \<Longrightarrow>
   length (waitingPool (matchStep uuidv4 s)) < length (waitingPool s)"
  by (cases "waitingPool s" rule: remdups_adj.cases)
     (simp_all add: matchStep_def Let_def unshift_def)

function tryMatch :: "(nat \<Rightarrow> string) \<Rightarrow> ServerState \<Rightarrow> ServerState" where
  "tryMatch uuidv4 s =
     (if 2 \<le> length (waitingPool s) then tryMatch uuidv4 (matchStep uuidv4 s) else s)"
  by pat_completeness auto
termination
  by (relation "measure (\<lambda>(g, s). length (waitingPool s))") (simp_all add: matchStep_shrinks)

declare tryMatch.simps [simp del]

section \<open>The event handlers\<close>

text \<open>\<open>io.on("connection")\<close>: the new socket gets a fresh User object.\<close>

definition connection :: "string \<Rightarrow> ServerState \<Rightarrow> ServerState" where
  "connection socketId s =
     s\<lparr>users := (users s)(socketId \<mapsto>
          \<lparr>state = IDLE, roomId = None, profile = None, persistentId = None\<rparr>)\<rparr>"

definition startSearching ::
  "(nat \<Rightarrow> string) \<Rightarrow> string \<Rightarrow> Profile \<Rightarrow> ServerState \<Rightarrow> ServerState" where
  "startSearching uuidv4 socketId prof s =
     (case users s socketId of
        None \<Rightarrow> s
      | Some user \<Rightarrow>
          if state user = IDLE \<or> state user = SEARCHING then
            tryMatch uuidv4
              (pushIfAbsent socketId
                 (updateUser socketId
                    (\<lambda>u. u\<lparr>state := SEARCHING, profile := Some prof,
                            persistentId := Some (profileId prof)\<rparr>) s))
          else s)"

definition stopSearching :: "string \<Rightarrow> ServerState \<Rightarrow> ServerState" where
  "stopSearching socketId s =
     (case users s socketId of
        None \<Rightarrow> s
      | Some user \<Rightarrow>
          if state user = SEARCHING then
            updateUser socketId (\<lambda>u. u\<lparr>state := IDLE\<rparr>) (removeFromPool socketId s)
          else s)"

text \<open>The statements of the skip-chat handler between its guards and its call of
  \<open>tryMatch\<close>.\<close>

definition skipChatCleanup :: "string \<Rightarrow> string \<Rightarrow> string \<Rightarrow> ServerState \<Rightarrow> ServerState" where
  "skipChatCleanup socketId room partnerId s =
     (let partner = users s partnerId;
          s1 = emit partnerId PartnerDisconnected s;
          s2 = updateUser socketId toSearching s1;
          s3 = pushIfAbsent socketId s2;
          s4 = emit socketId AutoSearching s3;
          s5 = (case partner of
                  None \<Rightarrow> s4
                | Some p \<Rightarrow>
                    emit partnerId AutoSearching
                      (unshiftIfAbsent partnerId (updateUser partnerId toSearching s4)))
      in deleteRoom room s5)"

definition skipChat :: "(nat \<Rightarrow> string) \<Rightarrow> string \<Rightarrow> ServerState \<Rightarrow> ServerState" where
  "skipChat uuidv4 socketId s =
     (case users s socketId of
        None \<Rightarrow> s
      | Some user \<Rightarrow>
          if state user \<noteq> IN_CHAT \<or> \<not> truthy (roomId user) then s
          else
            (case roomId user of
               None \<Rightarrow> s
             | Some room \<Rightarrow>
                 (case rooms s room of
                    None \<Rightarrow> s
                  | Some members \<Rightarrow>
                      (case partnerIn socketId members of
                         None \<Rightarrow> s
                       | Some partnerId \<Rightarrow>
                           tryMatch uuidv4 (skipChatCleanup socketId room partnerId s)))))"

definition stopChatCleanup :: "string \<Rightarrow> string \<Rightarrow> string \<Rightarrow> ServerState \<Rightarrow> ServerState" where
  "stopChatCleanup socketId room partnerId s =
     (let partner = users s partnerId;
          s1 = emit partnerId PartnerDisconnected s;
          s2 = updateUser socketId toIdle s1;
          s3 = (case partner of
                  None \<Rightarrow> s2
                | Some p \<Rightarrow>
                    emit partnerId AutoSearching
                      (unshiftIfAbsent partnerId (updateUser partnerId toSearching s2)))
      in deleteRoom room s3)"

definition stopChat :: "(nat \<Rightarrow> string) \<Rightarrow> string \<Rightarrow> ServerState \<Rightarrow> ServerState" where
  "stopChat uuidv4 socketId s =
     (case users s socketId of
        None \<Rightarrow> s
      | Some user \<Rightarrow>
          if state user \<noteq> IN_CHAT \<or> \<not> truthy (roomId user) then s
          else
            (case roomId user of
               None \<Rightarrow> s
             | Some room \<Rightarrow>
                 (case rooms s room of
                    None \<Rightarrow> s
                  | Some members \<Rightarrow>
                      (case partnerIn socketId members of
                         None \<Rightarrow> s
                       | Some partnerId \<Rightarrow>
                           tryMatch uuidv4 (stopChatCleanup socketId room partnerId s)))))"

text \<open>The relay handlers.\<close>

definition offer :: "string \<Rightarrow> string \<Rightarrow> string \<Rightarrow> ServerState \<Rightarrow> ServerState" where
  "offer socketId partnerId sdp s = emit partnerId (OfferOut sdp socketId) s"

definition answer :: "string \<Rightarrow> string \<Rightarrow> string \<Rightarrow> ServerState \<Rightarrow> ServerState" where
  "answer socketId partnerId sdp s = emit partnerId (AnswerOut sdp socketId) s"

definition iceCandidate :: "string \<Rightarrow> string \<Rightarrow> string \<Rightarrow> ServerState \<Rightarrow> ServerState" where
  "iceCandidate socketId partnerId candidate s =
     emit partnerId (IceCandidateOut candidate socketId) s"

definition chatMessage :: "string \<Rightarrow> string \<Rightarrow> string \<Rightarrow> ServerState \<Rightarrow> ServerState" where
  "chatMessage socketId partnerId message s =
     (case users s socketId of
        None \<Rightarrow> s
      | Some user \<Rightarrow>
          if state user = IN_CHAT \<and> partnerId \<noteq> [] then
            emit partnerId (ChatMessageOut message socketId) s
          else s)"

text \<open>
  The initiate-report handler up to its \<open>await\<close>: the guard, the cleanup, the call of
  \<open>tryMatch\<close>, then the call of the report function. The handler resumes in
  \<open>reportSettled\<close> when the call returns (\<open>True\<close>) or fails (\<open>False\<close>).
\<close>

definition reportCleanup :: "string \<Rightarrow> string \<Rightarrow> string \<Rightarrow> ServerState \<Rightarrow> ServerState" where
  "reportCleanup socketId room partnerId s =
     (let s1 = emit partnerId PartnerDisconnected s;
          s2 = emit socketId PartnerDisconnected s1;
          s3 = updateUser socketId toIdle s2;
          s4 = updateUser partnerId toSearching s3;
          s5 = unshiftIfAbsent partnerId s4;
          s6 = emit partnerId AutoSearching s5
      in deleteRoom room s6)"

definition persistentIdOf :: "ServerState \<Rightarrow> string \<Rightarrow> string option" where
  "persistentIdOf s c = (case users s c of None \<Rightarrow> None | Some u \<Rightarrow> persistentId u)"

definition invokeReport ::
  "string \<Rightarrow> string \<Rightarrow> string \<Rightarrow> string \<Rightarrow> ServerState \<Rightarrow> ServerState" where
  "invokeReport socketId partnerId screenshot chatLog s =
     s\<lparr>emitted := emitted s @
          [InvokeReport (persistentIdOf s socketId) (persistentIdOf s partnerId)
             screenshot chatLog]\<rparr>"

definition reportGuard :: "ServerState \<Rightarrow> string \<Rightarrow> string \<Rightarrow> bool" where
  "reportGuard s socketId partnerId =
     (case users s socketId of
        None \<Rightarrow> False
      | Some user \<Rightarrow>
          state user = IN_CHAT \<and> truthy (roomId user) \<and>
          (case users s partnerId of
             None \<Rightarrow> False
           | Some partner \<Rightarrow> truthy (persistentId user) \<and> truthy (persistentId partner)))"

definition initiateReport ::
  "(nat \<Rightarrow> string) \<Rightarrow> string \<Rightarrow> string \<Rightarrow> string \<Rightarrow> string \<Rightarrow> ServerState \<Rightarrow> ServerState" where
  "initiateReport uuidv4 socketId partnerId screenshot chatLog s =
     (if \<not> reportGuard s socketId partnerId then s
      else
        (case users s socketId of
           None \<Rightarrow> s
         | Some user \<Rightarrow>
             (case roomId user of
                None \<Rightarrow> s
              | Some room \<Rightarrow>
                  invokeReport socketId partnerId screenshot chatLog
                    (tryMatch uuidv4 (reportCleanup socketId room partnerId s)))))"

definition reportSettled :: "string \<Rightarrow> bool \<Rightarrow> ServerState \<Rightarrow> ServerState" where
  "reportSettled socketId ok s =
     emit socketId (if ok then ReportSuccessful else ReportFailed) s"

text \<open>The statements of \<open>handleDisconnect\<close> that requeue the partner, before its call
  of \<open>tryMatch\<close>.\<close>

definition disconnectRequeue :: "string \<Rightarrow> ServerState \<Rightarrow> ServerState" where
  "disconnectRequeue partnerId s =
     emit partnerId AutoSearching (unshift partnerId (updateUser partnerId toSearching s))"

text \<open>The block of \<open>handleDisconnect\<close> under
  \<open>if (user.state === "IN_CHAT" && user.roomId)\<close>.\<close>

definition disconnectRoom ::
  "(nat \<Rightarrow> string) \<Rightarrow> string \<Rightarrow> User \<Rightarrow> ServerState \<Rightarrow> ServerState" where
  "disconnectRoom uuidv4 socketId user s =
     (if state user = IN_CHAT \<and> truthy (roomId user) then
        (case roomId user of
           None \<Rightarrow> s
         | Some room \<Rightarrow>
             (case rooms s room of
                None \<Rightarrow> s
              | Some members \<Rightarrow>
                  deleteRoom room
                    (case partnerIn socketId members of
                       None \<Rightarrow> s
                     | Some partnerId \<Rightarrow>
                         (let s1 = emit partnerId PartnerDisconnected s in
                          case users s1 partnerId of
                            None \<Rightarrow> s1
                          | Some partner \<Rightarrow>
                              tryMatch uuidv4 (disconnectRequeue partnerId s1)))))
      else s)"

definition handleDisconnect :: "(nat \<Rightarrow> string) \<Rightarrow> string \<Rightarrow> ServerState \<Rightarrow> ServerState" where
  "handleDisconnect uuidv4 socketId s =
     (case users s socketId of
        None \<Rightarrow> s
      | Some user \<Rightarrow>
          (let s1 = removeFromPool socketId s;
               s2 = disconnectRoom uuidv4 socketId user s1
           in s2\<lparr>users := (users s2)(socketId := None)\<rparr>))"

text \<open>One event, and a sequence of events from the start of the process.\<close>

fun handle :: "(nat \<Rightarrow> string) \<Rightarrow> Event \<Rightarrow> ServerState \<Rightarrow> ServerState" where
  "handle uuidv4 (Connection c) s = connection c s"
| "handle uuidv4 (StartSearching c p) s = startSearching uuidv4 c p s"
| "handle uuidv4 (StopSearching c) s = stopSearching c s"
| "handle uuidv4 (SkipChat c) s = skipChat uuidv4 c s"
| "handle uuidv4 (StopChat c) s = stopChat uuidv4 c s"
| "handle uuidv4 (Offer c p d) s = offer c p d s"
| "handle uuidv4 (Answer c p d) s = answer c p d s"
| "handle uuidv4 (IceCandidate c p d) s = iceCandidate c p d s"
| "handle uuidv4 (ChatMessage c p m) s = chatMessage c p m s"
| "handle uuidv4 (InitiateReport c p shot log) s = initiateReport uuidv4 c p shot log s"
| "handle uuidv4 (ReportSettled c ok) s = reportSettled c ok s"
| "handle uuidv4 (Disconnect c) s = handleDisconnect uuidv4 c s"

definition run :: "(nat \<Rightarrow> string) \<Rightarrow> Event list \<Rightarrow> ServerState" where
  "run uuidv4 evs = foldl (\<lambda>s e. handle uuidv4 e s) initialState evs"

text \<open>A concrete generator for the examples: call \<open>n\<close> returns \<open>n + 1\<close> letters r.\<close>

definition sampleUuid :: "nat \<Rightarrow> string" where
  "sampleUuid n = replicate (Suc n) CHR ''r''"

definition sampleProfile :: "string \<Rightarrow> Profile" where
  "sampleProfile p =
     \<lparr>username = None, avatar_url = None, dob = None, gender = None, profileId = p\<rparr>"

section \<open>Notions used in the statements\<close>



text \<open>Example states. \<open>matched2\<close>: x and y have connected and searched, and are paired
  in room r. \<open>waiting2\<close>: the state inside the start-searching handler of y just before
  its call of \<open>tryMatch\<close>, with x and y both in the pool.\<close>

definition matched2 :: ServerState where
  "matched2 = run sampleUuid
     [Connection ''x'', Connection ''y'',
      StartSearching ''x'' (sampleProfile ''px''), StartSearching ''y'' (sampleProfile ''py'')]"

definition waiting2 :: ServerState where
  "waiting2 = pushIfAbsent ''y'' (updateUser ''y''
       (\<lambda>u. u\<lparr>state := SEARCHING, profile := Some (sampleProfile ''py''),
               persistentId := Some ''py''\<rparr>)
     (run sampleUuid
       [Connection ''x'', Connection ''y'', StartSearching ''x'' (sampleProfile ''px'')]))"

text \<open>The acting user has a live room: a user object in state IN_CHAT whose \<open>roomId\<close>
  is set and is a key of \<open>rooms\<close>.\<close>

definition hasLiveRoom :: "ServerState \<Rightarrow> string \<Rightarrow> bool" where
  "hasLiveRoom s c =
     (case users s c of
        None \<Rightarrow> False
      | Some u \<Rightarrow>
          state u = IN_CHAT \<and>
          (case roomId u of None \<Rightarrow> False | Some r \<Rightarrow> r \<noteq> [] \<and> rooms s r \<noteq> None))"

text \<open>More example states and runs. \<open>searching1\<close>: x alone, searching. \<open>paired3\<close>: x and
  y paired in room r, z idle after a search it stopped. \<open>selfReport\<close>: x, paired with y,
  reports itself. \<open>strangerReport\<close>: x, paired with y, reports z, who is paired with w.\<close>

definition searching1 :: ServerState where
  "searching1 = run sampleUuid [Connection ''x'', StartSearching ''x'' (sampleProfile ''px'')]"

definition sampleUser :: "UserState \<Rightarrow> string option \<Rightarrow> string \<Rightarrow> User" where
  "sampleUser st r p =
     \<lparr>state = st, roomId = r, profile = Some (sampleProfile p), persistentId = Some p\<rparr>"

definition selfReport :: "Event list" where
  "selfReport =
     [Connection ''x'', Connection ''y'',
      StartSearching ''x'' (sampleProfile ''px''), StartSearching ''y'' (sampleProfile ''py''),
      InitiateReport ''x'' ''x'' ''shot'' ''log'']"

definition strangerReport :: "Event list" where
  "strangerReport =
     [Connection ''x'', Connection ''y'', Connection ''z'', Connection ''w'',
      StartSearching ''x'' (sampleProfile ''px''), StartSearching ''y'' (sampleProfile ''py''),
      StartSearching ''z'' (sampleProfile ''pz''), StartSearching ''w'' (sampleProfile ''pw''),
      InitiateReport ''x'' ''z'' ''shot'' ''log'']"

definition paired3 :: ServerState where
  "paired3 = run sampleUuid
     [Connection ''x'', Connection ''y'', Connection ''z'',
      StartSearching ''z'' (sampleProfile ''pz''), StopSearching ''z'',
      StartSearching ''x'' (sampleProfile ''px''), StartSearching ''y'' (sampleProfile ''py'')]"

text \<open>
  The relation between rooms and users. \<open>inChatIn s c r\<close>: c has a user object in state
  IN_CHAT whose \<open>roomId\<close> is r. \<open>roomsConsistent\<close>: every registered room has two
  different members, both IN_CHAT in it, and every user IN_CHAT is a member of the
  registered room its \<open>roomId\<close> names. \<open>consistentBut g D R\<close> is the invariant of the
  proof: it adds what the handlers rely on (no id twice in the pool, pool entries are
  SEARCHING, room ids come from the generator), and leaves out the users in D and the
  rooms in R, which a running disconnect is about to delete.
\<close>

definition inChatIn :: "ServerState \<Rightarrow> string \<Rightarrow> string \<Rightarrow> bool" where
  "inChatIn s c r =
     (case users s c of None \<Rightarrow> False | Some u \<Rightarrow> state u = IN_CHAT \<and> roomId u = Some r)"

definition roomsConsistent :: "ServerState \<Rightarrow> bool" where
  "roomsConsistent s \<longleftrightarrow>
     (\<forall>r a b. rooms s r = Some (a, b) \<longrightarrow> a \<noteq> b \<and> inChatIn s a r \<and> inChatIn s b r) \<and>
     (\<forall>c u. users s c = Some u \<and> state u = IN_CHAT \<longrightarrow>
        (\<exists>r a b. roomId u = Some r \<and> rooms s r = Some (a, b) \<and> (c = a \<or> c = b)))"

definition consistentBut ::
  "(nat \<Rightarrow> string) \<Rightarrow> string set \<Rightarrow> string set \<Rightarrow> ServerState \<Rightarrow> bool" where
  "consistentBut g D R s \<longleftrightarrow>
     distinct (waitingPool s) \<and>
     (\<forall>c \<in> set (waitingPool s). isSearching (users s c) \<and> c \<notin> D) \<and>
     users s [] = None \<and>
     (\<forall>r m. rooms s r = Some m \<longrightarrow> (\<exists>n < uuidCalls s. r = g n)) \<and>
     (\<forall>r \<in> R. \<exists>n < uuidCalls s. r = g n) \<and>
     (\<forall>r a b. rooms s r = Some (a, b) \<and> r \<notin> R \<longrightarrow>
        a \<noteq> b \<and> a \<notin> D \<and> b \<notin> D \<and> inChatIn s a r \<and> inChatIn s b r) \<and>
     (\<forall>c u. users s c = Some u \<and> state u = IN_CHAT \<and> c \<notin> D \<longrightarrow>
        (\<exists>r a b. r \<notin> R \<and> roomId u = Some r \<and> rooms s r = Some (a, b) \<and> (c = a \<or> c = b)))"

text \<open>The named socket is the other member of the sender's room.\<close>

definition namesPartner :: "ServerState \<Rightarrow> string \<Rightarrow> string \<Rightarrow> bool" where
  "namesPartner s c p =
     (case users s c of
        None \<Rightarrow> False
      | Some u \<Rightarrow>
          (case roomId u of
             None \<Rightarrow> False
           | Some r \<Rightarrow>
               (case rooms s r of None \<Rightarrow> False | Some m \<Rightarrow> partnerIn c m = Some p)))"

text \<open>What the transport and the clients are assumed to do: a connection event brings
  a new, non-empty socket id, and a report that passes the guard names the other member
  of the sender's room.\<close>

definition admissible :: "ServerState \<Rightarrow> Event \<Rightarrow> bool" where
  "admissible s e =
     (case e of
        Connection c \<Rightarrow> c \<noteq> [] \<and> users s c = None
      | InitiateReport c p shot log \<Rightarrow> \<not> reportGuard s c p \<or> namesPartner s c p
      | _ \<Rightarrow> True)"

fun admissibleRun :: "(nat \<Rightarrow> string) \<Rightarrow> ServerState \<Rightarrow> Event list \<Rightarrow> bool" where
  "admissibleRun g s [] = True"
| "admissibleRun g s (e # es) = (admissible s e \<and> admissibleRun g (handle g e s) es)"

text \<open>\<open>staleFirst\<close> and \<open>staleSecond\<close>: as \<open>waiting2\<close>, with the id z of no user
  in the pool, in the first and in the second place.\<close>

definition staleFirst :: ServerState where
  "staleFirst = waiting2\<lparr>waitingPool := [''z'', ''x'', ''y'']\<rparr>"

definition staleSecond :: ServerState where
  "staleSecond = waiting2\<lparr>waitingPool := [''x'', ''z'', ''y'']\<rparr>"

section \<open>Basic facts about the helpers and the loop\<close>

lemma waitingPool_deleteRoom [simp]: "waitingPool (deleteRoom r s) = waitingPool s"
  by (simp add: deleteRoom_def)

lemma users_deleteRoom [simp]: "users (deleteRoom r s) = users s"
  by (simp add: deleteRoom_def)

lemma emitted_deleteRoom [simp]: "emitted (deleteRoom r s) = emitted s"
  by (simp add: deleteRoom_def)

lemma rooms_deleteRoom [simp]: "rooms (deleteRoom r s) = (rooms s)(r := None)"
  by (simp add: deleteRoom_def)

lemma waitingPool_invokeReport [simp]: "waitingPool (invokeReport a b c d s) = waitingPool s"
  by (simp add: invokeReport_def)

lemma users_invokeReport [simp]: "users (invokeReport a b c d s) = users s"
  by (simp add: invokeReport_def)

lemma rooms_invokeReport [simp]: "rooms (invokeReport a b c d s) = rooms s"
  by (simp add: invokeReport_def)

lemma users_unshift [simp]: "users (unshift c s) = users s"
  by (simp add: unshift_def)

lemma users_push [simp]: "users (push c s) = users s"
  by (simp add: push_def)

lemma users_pushIfAbsent [simp]: "users (pushIfAbsent c s) = users s"
  by (simp add: pushIfAbsent_def)

lemma users_unshiftIfAbsent [simp]: "users (unshiftIfAbsent c s) = users s"
  by (simp add: unshiftIfAbsent_def)

lemma users_removeFromPool [simp]: "users (removeFromPool c s) = users s"
  by (simp add: removeFromPool_def)

lemma rooms_removeFromPool [simp]: "rooms (removeFromPool c s) = rooms s"
  by (simp add: removeFromPool_def)

lemma waitingPool_removeFromPool [simp]:
  "waitingPool (removeFromPool c s) = remove1 c (waitingPool s)"
  by (simp add: removeFromPool_def)

lemma waitingPool_unshift [simp]: "waitingPool (unshift c s) = c # waitingPool s"
  by (simp add: unshift_def)

lemma waitingPool_push [simp]: "waitingPool (push c s) = waitingPool s @ [c]"
  by (simp add: push_def)

lemma waitingPool_pushIfAbsent:
  "waitingPool (pushIfAbsent c s) =
     (if c \<in> set (waitingPool s) then waitingPool s else waitingPool s @ [c])"
  by (simp add: pushIfAbsent_def)

lemma waitingPool_unshiftIfAbsent:
  "waitingPool (unshiftIfAbsent c s) =
     (if c \<in> set (waitingPool s) then waitingPool s else c # waitingPool s)"
  by (simp add: unshiftIfAbsent_def)

lemma dom_users_matchStep [simp]: "dom (users (matchStep uuidv4 s)) = dom (users s)"
  by (simp add: matchStep_def Let_def split: list.splits)

lemma set_pool_matchStep: "set (waitingPool (matchStep uuidv4 s)) \<subseteq> set (waitingPool s)"
  by (auto simp: matchStep_def Let_def split: list.splits)

lemma tryMatch_short: "length (waitingPool (tryMatch uuidv4 s)) \<le> Suc 0"
proof (induction uuidv4 s rule: tryMatch.induct)
  case (1 uuidv4 s)
  show ?case
  proof (cases "2 \<le> length (waitingPool s)")
    case True
    with "1.IH" show ?thesis by (simp add: tryMatch.simps [of uuidv4 s])
  next
    case False
    then show ?thesis by (simp add: tryMatch.simps [of uuidv4 s])
  qed
qed

lemma tryMatch_dom_users [simp]: "dom (users (tryMatch uuidv4 s)) = dom (users s)"
proof (induction uuidv4 s rule: tryMatch.induct)
  case (1 uuidv4 s)
  show ?case
  proof (cases "2 \<le> length (waitingPool s)")
    case True
    with "1.IH" show ?thesis by (simp add: tryMatch.simps [of uuidv4 s])
  next
    case False
    then show ?thesis by (simp add: tryMatch.simps [of uuidv4 s])
  qed
qed

lemma tryMatch_pool_subset: "set (waitingPool (tryMatch uuidv4 s)) \<subseteq> set (waitingPool s)"
proof (induction uuidv4 s rule: tryMatch.induct)
  case (1 uuidv4 s)
  show ?case
  proof (cases "2 \<le> length (waitingPool s)")
    case True
    with "1.IH" set_pool_matchStep [of uuidv4 s] show ?thesis
      by (auto simp: tryMatch.simps [of uuidv4 s])
  next
    case False
    then show ?thesis by (simp add: tryMatch.simps [of uuidv4 s])
  qed
qed

lemma length_remove1_short:
  "length xs \<le> Suc 0 \<Longrightarrow> length (remove1 x xs) \<le> Suc 0"
  by (cases xs) auto

lemma short_disconnectRoom:
  "length (waitingPool s) \<le> Suc 0 \<Longrightarrow>
   length (waitingPool (disconnectRoom uuidv4 c user s)) \<le> Suc 0"
  by (simp add: disconnectRoom_def Let_def tryMatch_short split: option.splits)

lemma handle_short:
  assumes short: "length (waitingPool s) \<le> Suc 0"
  shows "length (waitingPool (handle uuidv4 e s)) \<le> Suc 0"
proof (cases e)
  case (Disconnect c)
  from short have "length (remove1 c (waitingPool s)) \<le> Suc 0"
    by (rule length_remove1_short)
  with short Disconnect show ?thesis
    by (auto simp: handleDisconnect_def Let_def short_disconnectRoom
          split: option.splits)
next
  case (StopSearching c)
  with short length_remove1_short [OF short, of c] show ?thesis
    by (auto simp: stopSearching_def split: option.splits)
qed (use short in \<open>auto simp: connection_def startSearching_def skipChat_def stopChat_def
       offer_def answer_def iceCandidate_def chatMessage_def initiateReport_def
       reportSettled_def tryMatch_short split: option.splits\<close>)

lemma run_snoc: "run uuidv4 (evs @ [e]) = handle uuidv4 e (run uuidv4 evs)"
  by (simp add: run_def)

lemma run_short: "length (waitingPool (run uuidv4 evs)) \<le> Suc 0"
proof (induction evs rule: rev_induct)
  case Nil
  show ?case by (simp add: run_def initialState_def)
next
  case (snoc e evs)
  then show ?case by (simp add: run_snoc handle_short)
qed


lemma partnerIn_neq: "partnerIn c m = Some p \<Longrightarrow> p \<noteq> c \<and> p \<noteq> []"
  by (cases m) (auto simp: partnerIn_def split: if_splits)

lemma pool_skipChatCleanup:
  "users s c \<noteq> None \<Longrightarrow>
   set (waitingPool (skipChatCleanup c r p s)) \<subseteq> set (waitingPool s) \<union> dom (users s)"
  by (auto simp: skipChatCleanup_def Let_def waitingPool_pushIfAbsent
        waitingPool_unshiftIfAbsent split: option.splits if_splits)

lemma pool_stopChatCleanup:
  "set (waitingPool (stopChatCleanup c r p s)) \<subseteq> set (waitingPool s) \<union> dom (users s)"
  by (auto simp: stopChatCleanup_def Let_def waitingPool_unshiftIfAbsent
        split: option.splits if_splits)

lemma pool_reportCleanup:
  "users s p \<noteq> None \<Longrightarrow>
   set (waitingPool (reportCleanup c r p s)) \<subseteq> set (waitingPool s) \<union> dom (users s)"
  by (auto simp: reportCleanup_def Let_def waitingPool_unshiftIfAbsent
        split: option.splits if_splits)

lemma dom_users_skipChatCleanup [simp]:
  "dom (users (skipChatCleanup c r p s)) = dom (users s)"
  by (simp add: skipChatCleanup_def Let_def split: option.splits)

lemma dom_users_stopChatCleanup [simp]:
  "dom (users (stopChatCleanup c r p s)) = dom (users s)"
  by (simp add: stopChatCleanup_def Let_def split: option.splits)

lemma dom_users_reportCleanup [simp]:
  "dom (users (reportCleanup c r p s)) = dom (users s)"
  by (simp add: reportCleanup_def Let_def split: option.splits)

lemma tryMatch_pool_in:
  "set (waitingPool s) \<subseteq> A \<Longrightarrow> set (waitingPool (tryMatch uuidv4 s)) \<subseteq> A"
  using tryMatch_pool_subset [of uuidv4 s] by blast

lemma remove1_short_notin: "length xs \<le> Suc 0 \<Longrightarrow> x \<notin> set (remove1 x xs)"
  by (cases xs) auto

lemma dom_users_disconnectRequeue [simp]:
  "dom (users (disconnectRequeue p s)) = dom (users s)"
  by (simp add: disconnectRequeue_def)

lemma pool_disconnectRoom:
  "set (waitingPool (disconnectRoom uuidv4 c user s))
     \<subseteq> set (waitingPool s) \<union> (dom (users s) - {c})"
proof -
  have requeue: "set (waitingPool (tryMatch uuidv4
                   (disconnectRequeue p (emit p PartnerDisconnected s))))
                 \<subseteq> set (waitingPool s) \<union> (dom (users s) - {c})"
    if "p \<noteq> c" and "users s p \<noteq> None" for p
    using that by (intro tryMatch_pool_in) (auto simp: disconnectRequeue_def)
  show ?thesis
  proof (cases "state user = IN_CHAT \<and> truthy (roomId user)")
    case False
    then show ?thesis by (auto simp: disconnectRoom_def)
  next
    case True
    show ?thesis
    proof (cases "roomId user")
      case None
      then show ?thesis by (simp add: disconnectRoom_def)
    next
      case (Some room)
      show ?thesis
      proof (cases "rooms s room")
        case None
        with Some show ?thesis by (simp add: disconnectRoom_def)
      next
        case members: (Some members)
        show ?thesis
        proof (cases "partnerIn c members")
          case None
          with Some members show ?thesis by (simp add: disconnectRoom_def)
        next
          case partner: (Some p)
          from partnerIn_neq [OF partner] have "p \<noteq> c" by simp
          with requeue [of p] True Some members partner show ?thesis
            by (cases "users s p") (simp_all add: disconnectRoom_def Let_def)
        qed
      qed
    qed
  qed
qed

lemma dom_users_disconnectRoom [simp]:
  "dom (users (disconnectRoom uuidv4 c user s)) = dom (users s)"
  by (simp add: disconnectRoom_def Let_def split: option.splits)

lemma handleDisconnect_known:
  assumes short: "length (waitingPool s) \<le> Suc 0"
    and known: "set (waitingPool s) \<subseteq> dom (users s)"
  shows "set (waitingPool (handleDisconnect uuidv4 c s))
           \<subseteq> dom (users (handleDisconnect uuidv4 c s))"
proof (cases "users s c")
  case None
  with known show ?thesis by (simp add: handleDisconnect_def)
next
  case (Some user)
  let ?s1 = "removeFromPool c s"
  have gone: "c \<notin> set (waitingPool ?s1)"
    using short by (simp add: remove1_short_notin)
  have rest: "set (waitingPool ?s1) \<subseteq> dom (users s) - {c}"
    using gone known set_remove1_subset [of c "waitingPool s"] by auto
  have "set (waitingPool (disconnectRoom uuidv4 c user ?s1)) \<subseteq> dom (users s) - {c}"
    using pool_disconnectRoom [of uuidv4 c user ?s1] rest by auto
  with Some show ?thesis
    by (auto simp: handleDisconnect_def Let_def)
qed

lemma handle_known:
  assumes short: "length (waitingPool s) \<le> Suc 0"
    and known: "set (waitingPool s) \<subseteq> dom (users s)"
  shows "set (waitingPool (handle uuidv4 e s)) \<subseteq> dom (users (handle uuidv4 e s))"
proof (cases e)
  case (Disconnect c)
  with handleDisconnect_known [OF short known] show ?thesis by simp
next
  case (StartSearching c p)
  show ?thesis
  proof (cases "users s c")
    case None
    with known StartSearching show ?thesis by (simp add: startSearching_def)
  next
    case (Some user)
    have "set (waitingPool (tryMatch uuidv4 (pushIfAbsent c (updateUser c f s))))
            \<subseteq> dom (users s)" for f
      using known Some by (intro tryMatch_pool_in) (auto simp: waitingPool_pushIfAbsent)
    with known Some StartSearching show ?thesis
      by (simp add: startSearching_def)
  qed
next
  case (StopSearching c)
  with known set_remove1_subset [of c "waitingPool s"] show ?thesis
    by (auto simp: stopSearching_def split: option.splits)
next
  case (SkipChat c)
  have "set (waitingPool (tryMatch uuidv4 (skipChatCleanup c r p s))) \<subseteq> dom (users s)"
    if "users s c \<noteq> None" for r p
    using known pool_skipChatCleanup [OF that, of r p] by (intro tryMatch_pool_in) auto
  with known SkipChat show ?thesis
    by (auto simp: skipChat_def split: option.splits)
next
  case (StopChat c)
  have "set (waitingPool (tryMatch uuidv4 (stopChatCleanup c r p s))) \<subseteq> dom (users s)"
    for r p
    using known pool_stopChatCleanup [of c r p s] by (intro tryMatch_pool_in) auto
  with known StopChat show ?thesis
    by (auto simp: stopChat_def split: option.splits)
next
  case (InitiateReport c p shot log)
  have "set (waitingPool (tryMatch uuidv4 (reportCleanup c r p s))) \<subseteq> dom (users s)"
    if "users s p \<noteq> None" for r
    using known pool_reportCleanup [OF that, of c r] by (intro tryMatch_pool_in) auto
  with known InitiateReport show ?thesis
    by (auto simp: initiateReport_def reportGuard_def split: option.splits)
qed (use known in \<open>auto simp: connection_def offer_def answer_def iceCandidate_def
       chatMessage_def reportSettled_def split: option.splits\<close>)

lemma run_known: "set (waitingPool (run uuidv4 evs)) \<subseteq> dom (users (run uuidv4 evs))"
proof (induction evs rule: rev_induct)
  case Nil
  show ?case by (simp add: run_def initialState_def)
next
  case (snoc e evs)
  then show ?case by (simp add: run_snoc handle_known run_short)
qed





lemma users_createRoom_other:
  "c \<noteq> a \<Longrightarrow> c \<noteq> b \<Longrightarrow> users (createRoom uuidv4 a b s) c = users s c"
  by (simp add: createRoom_def Let_def users_updateUser)

lemma users_createRoom_first:
  "users (createRoom uuidv4 a b s) a = map_option (toInChat (uuidv4 (uuidCalls s))) (users s a)"
  by (cases "users s a"; cases "users s b")
     (auto simp: createRoom_def Let_def users_updateUser toInChat_def)

lemma users_createRoom_second:
  "users (createRoom uuidv4 a b s) b = map_option (toInChat (uuidv4 (uuidCalls s))) (users s b)"
  by (cases "users s a"; cases "users s b")
     (auto simp: createRoom_def Let_def users_updateUser toInChat_def)

lemma rooms_createRoom:
  "rooms (createRoom uuidv4 a b s) = (rooms s)(uuidv4 (uuidCalls s) \<mapsto> (a, b))"
  by (simp add: createRoom_def Let_def)

lemma uuidCalls_createRoom [simp]:
  "uuidCalls (createRoom uuidv4 a b s) = Suc (uuidCalls s)"
  by (simp add: createRoom_def Let_def)

lemma matchStep_keeps_user:
  assumes "\<not> isSearching (users s c)"
  shows "users (matchStep uuidv4 s) c = users s c"
proof (cases "waitingPool s" rule: remdups_adj.cases)
  case (3 a b rest)
  show ?thesis
  proof (cases "isSearching (users s a) \<and> isSearching (users s b)")
    case True
    with assms have "c \<noteq> a" "c \<noteq> b" by auto
    with 3 True show ?thesis
      by (simp add: matchStep_def Let_def users_createRoom_other)
  next
    case False
    with 3 show ?thesis by (auto simp: matchStep_def Let_def unshift_def)
  qed
qed (simp_all add: matchStep_def)

lemma tryMatch_keeps_user:
  "\<not> isSearching (users s c) \<Longrightarrow> users (tryMatch uuidv4 s) c = users s c"
proof (induction uuidv4 s rule: tryMatch.induct)
  case (1 uuidv4 s)
  show ?case
  proof (cases "2 \<le> length (waitingPool s)")
    case True
    with "1.IH" "1.prems" show ?thesis
      by (simp add: tryMatch.simps [of uuidv4 s] matchStep_keeps_user)
  next
    case False
    then show ?thesis by (simp add: tryMatch.simps [of uuidv4 s])
  qed
qed

lemma uuidCalls_matchStep: "uuidCalls s \<le> uuidCalls (matchStep uuidv4 s)"
  by (cases "waitingPool s" rule: remdups_adj.cases)
     (auto simp: matchStep_def Let_def unshift_def)

lemma rooms_matchStep_other:
  "r \<noteq> uuidv4 (uuidCalls s) \<Longrightarrow> rooms (matchStep uuidv4 s) r = rooms s r"
  by (cases "waitingPool s" rule: remdups_adj.cases)
     (auto simp: matchStep_def Let_def unshift_def rooms_createRoom)

lemma tryMatch_keeps_room:
  "(\<And>n. uuidCalls s \<le> n \<Longrightarrow> uuidv4 n \<noteq> r) \<Longrightarrow> rooms (tryMatch uuidv4 s) r = rooms s r"
proof (induction uuidv4 s rule: tryMatch.induct)
  case (1 uuidv4 s)
  show ?case
  proof (cases "2 \<le> length (waitingPool s)")
    case True
    have "uuidv4 n \<noteq> r" if "uuidCalls (matchStep uuidv4 s) \<le> n" for n
      using that uuidCalls_matchStep [of s uuidv4] "1.prems" [of n] by simp
    with "1.IH" [OF True] have "rooms (tryMatch uuidv4 (matchStep uuidv4 s)) r
        = rooms (matchStep uuidv4 s) r" by blast
    with True "1.prems" [of "uuidCalls s"] show ?thesis
      by (simp add: tryMatch.simps [of uuidv4 s] rooms_matchStep_other)
  next
    case False
    then show ?thesis by (simp add: tryMatch.simps [of uuidv4 s])
  qed
qed

lemma isSearching_toInChat [simp]: "\<not> isSearching (map_option (toInChat r) x)"
  by (cases x) (simp_all add: isSearching_def toInChat_def)

lemma inj_sampleUuid: "inj sampleUuid"
  by (rule injI) (simp add: sampleUuid_def)

lemma fresh_matched2:
  "\<forall>n. uuidCalls matched2 \<le> n \<longrightarrow> rooms matched2 (sampleUuid n) = None"
proof -
  have calls: "uuidCalls matched2 = 1" by code_simp
  have "rooms matched2 q = None" if "q \<noteq> ''r''" for q
    using that
    by (simp add: matched2_def run_def initialState_def connection_def startSearching_def
          updateUser_def pushIfAbsent_def push_def tryMatch.simps matchStep_def isSearching_def
          createRoom_def Let_def toInChat_def sampleUuid_def unshift_def emit_def)
  moreover have "sampleUuid n \<noteq> ''r''" if "1 \<le> n" for n
    using that by (cases n) (simp_all add: sampleUuid_def)
  ultimately show ?thesis using calls by simp
qed

lemma persistentIdOf_createRoom [simp]:
  "persistentIdOf (createRoom uuidv4 a b s) d = persistentIdOf s d"
  by (auto simp: persistentIdOf_def createRoom_def Let_def users_updateUser toInChat_def
        split: option.splits)

lemma persistentIdOf_matchStep [simp]:
  "persistentIdOf (matchStep uuidv4 s) d = persistentIdOf s d"
proof (cases "waitingPool s" rule: remdups_adj.cases)
  case (3 a b rest)
  have "persistentIdOf (s\<lparr>waitingPool := xs\<rparr>) d = persistentIdOf s d" for xs
    by (simp add: persistentIdOf_def)
  with 3 show ?thesis
    by (simp add: matchStep_def Let_def unshift_def)
qed (simp_all add: matchStep_def)

lemma persistentIdOf_tryMatch [simp]:
  "persistentIdOf (tryMatch uuidv4 s) d = persistentIdOf s d"
proof (induction uuidv4 s rule: tryMatch.induct)
  case (1 uuidv4 s)
  show ?case
  proof (cases "2 \<le> length (waitingPool s)")
    case True
    with "1.IH" show ?thesis by (simp add: tryMatch.simps [of uuidv4 s])
  next
    case False
    then show ?thesis by (simp add: tryMatch.simps [of uuidv4 s])
  qed
qed

lemma pool_skipChatCleanup_eq:
  "p \<noteq> c \<Longrightarrow> users s p \<noteq> None \<Longrightarrow>
   waitingPool (skipChatCleanup c r p s) =
     (if p \<in> set (waitingPool s) then [] else [p]) @ waitingPool s @
     (if c \<in> set (waitingPool s) then [] else [c])"
  by (auto simp: skipChatCleanup_def Let_def waitingPool_pushIfAbsent
        waitingPool_unshiftIfAbsent)

lemma pool_stopChatCleanup_eq:
  "users s p \<noteq> None \<Longrightarrow>
   waitingPool (stopChatCleanup c r p s) =
     (if p \<in> set (waitingPool s) then [] else [p]) @ waitingPool s"
  by (auto simp: stopChatCleanup_def Let_def waitingPool_unshiftIfAbsent)

lemma pool_reportCleanup_eq:
  "waitingPool (reportCleanup c r p s) =
     (if p \<in> set (waitingPool s) then [] else [p]) @ waitingPool s"
  by (auto simp: reportCleanup_def Let_def waitingPool_unshiftIfAbsent)

lemma pool_disconnectRequeue_eq:
  "waitingPool (disconnectRequeue p s) = p # waitingPool s"
  by (simp add: disconnectRequeue_def)

lemma rooms_reportCleanup [simp]: "rooms (reportCleanup c r p s) = (rooms s)(r := None)"
  by (simp add: reportCleanup_def Let_def unshiftIfAbsent_def unshift_def)

lemma users_reportCleanup_actor:
  "p \<noteq> c \<Longrightarrow> users (reportCleanup c r p s) c = map_option toIdle (users s c)"
  by (simp add: reportCleanup_def Let_def users_updateUser)

lemma users_reportCleanup_partner:
  "p \<noteq> c \<Longrightarrow> users (reportCleanup c r p s) p = map_option toSearching (users s p)"
  by (simp add: reportCleanup_def Let_def users_updateUser)

lemma emitted_reportCleanup:
  "emitted (reportCleanup c r p s) =
     emitted s @ [Emit p PartnerDisconnected, Emit c PartnerDisconnected, Emit p AutoSearching]"
  by (simp add: reportCleanup_def Let_def unshiftIfAbsent_def unshift_def)

lemma uuidCalls_reportCleanup [simp]: "uuidCalls (reportCleanup c r p s) = uuidCalls s"
  by (simp add: reportCleanup_def Let_def unshiftIfAbsent_def unshift_def deleteRoom_def)

lemma isSearching_toIdle [simp]: "\<not> isSearching (map_option toIdle x)"
  by (cases x) (simp_all add: isSearching_def toIdle_def)

lemma initiateReport_rejected:
  "\<not> reportGuard s c p \<Longrightarrow> initiateReport uuidv4 c p shot log s = s"
  by (simp add: initiateReport_def)

section \<open>Rooms and users when every report names the partner\<close>

lemma users_createRoom:
  "users (createRoom g a b s) c =
     (if c = a \<or> c = b then map_option (toInChat (g (uuidCalls s))) (users s c) else users s c)"
  by (cases "users s a"; cases "users s b")
     (auto simp: createRoom_def Let_def users_updateUser toInChat_def)

lemma isSearching_Some: "isSearching x \<Longrightarrow> \<exists>u. x = Some u \<and> state u = SEARCHING"
  by (cases x) (simp_all add: isSearching_def)

lemma createRoom_consistent:
  assumes inj: "inj g"
    and inv: "consistentBut g D R s"
    and pool: "waitingPool s = a # b # rest"
  shows "consistentBut g D R (createRoom g a b (s\<lparr>waitingPool := rest\<rparr>))"
proof -
  let ?r = "g (uuidCalls s)"
  let ?s' = "createRoom g a b (s\<lparr>waitingPool := rest\<rparr>)"
  from inv pool have ab: "a \<noteq> b" "a \<notin> set rest" "b \<notin> set rest" "distinct rest"
    by (auto simp: consistentBut_def)
  from inv pool obtain ua ub where
    ua: "users s a = Some ua" "state ua = SEARCHING" "a \<notin> D" and
    ub: "users s b = Some ub" "state ub = SEARCHING" "b \<notin> D"
    by (auto simp: consistentBut_def dest!: isSearching_Some)
  have fresh: "rooms s ?r = None"
  proof (cases "rooms s ?r")
    case (Some m)
    with inv obtain n where "n < uuidCalls s" "?r = g n"
      unfolding consistentBut_def by blast
    with inj show ?thesis by (auto dest: injD)
  qed simp
  have freshR: "?r \<notin> R"
  proof
    assume "?r \<in> R"
    with inv obtain n where "n < uuidCalls s" "?r = g n"
      unfolding consistentBut_def by blast
    with inj show False by (auto dest: injD)
  qed
  have us: "users ?s' c =
      (if c = a \<or> c = b then map_option (toInChat ?r) (users s c) else users s c)" for c
    by (simp add: users_createRoom)
  have rs: "rooms ?s' = (rooms s)(?r \<mapsto> (a, b))"
    by (simp add: rooms_createRoom)
  have in_a: "inChatIn ?s' a ?r" and in_b: "inChatIn ?s' b ?r"
    using ua ub by (simp_all add: inChatIn_def us toInChat_def)
  have keep: "inChatIn ?s' c r" if "inChatIn s c r" for c r
  proof -
    from that ua ub have "c \<noteq> a" "c \<noteq> b" by (auto simp: inChatIn_def)
    with that show ?thesis by (simp add: inChatIn_def us)
  qed
  have 1: "distinct (waitingPool ?s')" using ab by simp
  have 2: "\<forall>c \<in> set (waitingPool ?s'). isSearching (users ?s' c) \<and> c \<notin> D"
    using inv pool ab by (auto simp: consistentBut_def us)
  have 3: "users ?s' [] = None"
    using inv ua ub by (auto simp: consistentBut_def us)
  have 4: "\<forall>r m. rooms ?s' r = Some m \<longrightarrow> (\<exists>n < uuidCalls ?s'. r = g n)"
  proof (intro allI impI)
    fix r m assume "rooms ?s' r = Some m"
    then have "r = ?r \<or> rooms s r = Some m" by (auto simp: rs split: if_splits)
    then show "\<exists>n < uuidCalls ?s'. r = g n"
    proof
      assume "r = ?r" then show ?thesis by auto
    next
      assume "rooms s r = Some m"
      with inv obtain n where "n < uuidCalls s" "r = g n"
        unfolding consistentBut_def by blast
      then show ?thesis by (auto intro: less_SucI)
    qed
  qed
  have 5: "\<forall>r \<in> R. \<exists>n < uuidCalls ?s'. r = g n"
  proof
    fix r assume "r \<in> R"
    with inv obtain n where "n < uuidCalls s" "r = g n"
      unfolding consistentBut_def by blast
    then show "\<exists>n < uuidCalls ?s'. r = g n" by (auto intro: less_SucI)
  qed
  have 6: "\<forall>r x y. rooms ?s' r = Some (x, y) \<and> r \<notin> R \<longrightarrow>
        x \<noteq> y \<and> x \<notin> D \<and> y \<notin> D \<and> inChatIn ?s' x r \<and> inChatIn ?s' y r"
  proof (intro allI impI)
    fix r x y assume h: "rooms ?s' r = Some (x, y) \<and> r \<notin> R"
    show "x \<noteq> y \<and> x \<notin> D \<and> y \<notin> D \<and> inChatIn ?s' x r \<and> inChatIn ?s' y r"
    proof (cases "r = ?r")
      case True
      with h have "x = a" "y = b" by (simp_all add: rs)
      with True ab ua ub in_a in_b show ?thesis by simp
    next
      case False
      with h have "rooms s r = Some (x, y)" by (simp add: rs)
      with inv h have "x \<noteq> y \<and> x \<notin> D \<and> y \<notin> D \<and> inChatIn s x r \<and> inChatIn s y r"
        unfolding consistentBut_def by blast
      with keep show ?thesis by blast
    qed
  qed
  have 7: "\<forall>c u. users ?s' c = Some u \<and> state u = IN_CHAT \<and> c \<notin> D \<longrightarrow>
        (\<exists>r x y. r \<notin> R \<and> roomId u = Some r \<and> rooms ?s' r = Some (x, y) \<and> (c = x \<or> c = y))"
  proof (intro allI impI)
    fix c u assume h: "users ?s' c = Some u \<and> state u = IN_CHAT \<and> c \<notin> D"
    show "\<exists>r x y. r \<notin> R \<and> roomId u = Some r \<and> rooms ?s' r = Some (x, y) \<and> (c = x \<or> c = y)"
    proof (cases "c = a \<or> c = b")
      case True
      with h ua ub have "roomId u = Some ?r" by (auto simp: us toInChat_def)
      with True freshR show ?thesis by (auto simp: rs)
    next
      case False
      with h have "users s c = Some u" by (simp add: us)
      with inv h obtain r x y where
        r: "r \<notin> R" "roomId u = Some r" "rooms s r = Some (x, y)" "c = x \<or> c = y"
        unfolding consistentBut_def by blast
      with fresh have "r \<noteq> ?r" by auto
      with r show ?thesis by (auto simp: rs)
    qed
  qed
  from 1 2 3 4 5 6 7 show ?thesis unfolding consistentBut_def by blast
qed

lemma matchStep_consistent:
  assumes inj: "inj g" and inv: "consistentBut g D R s"
  shows "consistentBut g D R (matchStep g s)"
proof (cases "waitingPool s" rule: remdups_adj.cases)
  case (3 a b rest)
  with inv have "isSearching (users s a)" "isSearching (users s b)"
    by (auto simp: consistentBut_def)
  with 3 have "matchStep g s = createRoom g a b (s\<lparr>waitingPool := rest\<rparr>)"
    by (simp add: matchStep_def Let_def)
  with createRoom_consistent [OF inj inv 3] show ?thesis by simp
qed (use inv in \<open>simp_all add: matchStep_def\<close>)

lemma tryMatch_consistent:
  "inj g \<Longrightarrow> consistentBut g D R s \<Longrightarrow> consistentBut g D R (tryMatch g s)"
proof (induction g s rule: tryMatch.induct)
  case (1 g s)
  show ?case
  proof (cases "2 \<le> length (waitingPool s)")
    case True
    with "1.IH" "1.prems" show ?thesis
      by (simp add: tryMatch.simps [of g s] matchStep_consistent)
  next
    case False
    with "1.prems" show ?thesis by (simp add: tryMatch.simps [of g s])
  qed
qed

lemma inChat_room:
  assumes inv: "consistentBut g {} {} s"
    and ne: "\<And>n. g n \<noteq> []"
    and user: "users s c = Some u" "state u = IN_CHAT"
  obtains r m p v where
    "roomId u = Some r" "r \<noteq> []" "rooms s r = Some m" "partnerIn c m = Some p"
    "m = (c, p) \<or> m = (p, c)" "p \<noteq> c" "users s p = Some v" "state v = IN_CHAT"
    "roomId v = Some r"
proof -
  from inv user obtain r a b where
    r: "roomId u = Some r" "rooms s r = Some (a, b)" "c = a \<or> c = b"
    unfolding consistentBut_def by blast
  from inv r have ab: "a \<noteq> b" "inChatIn s a r" "inChatIn s b r"
    unfolding consistentBut_def by blast+
  from inv r obtain n where "r = g n" unfolding consistentBut_def by blast
  with ne have rne: "r \<noteq> []" by simp
  from inv have nil: "users s [] = None" by (simp add: consistentBut_def)
  with ab have ane: "a \<noteq> []" "b \<noteq> []" by (auto simp: inChatIn_def)
  show ?thesis
  proof (cases "c = a")
    case True
    from ab obtain v where v: "users s b = Some v" "state v = IN_CHAT" "roomId v = Some r"
      by (auto simp: inChatIn_def split: option.splits)
    from True ab ane have "partnerIn c (a, b) = Some b" by (simp add: partnerIn_def)
    with that [of r "(a, b)" b v] r rne True ab v show ?thesis by simp
  next
    case False
    with r have cb: "c = b" by simp
    from ab obtain v where v: "users s a = Some v" "state v = IN_CHAT" "roomId v = Some r"
      by (auto simp: inChatIn_def split: option.splits)
    from cb ab ane have "partnerIn c (a, b) = Some a" by (simp add: partnerIn_def)
    with that [of r "(a, b)" a v] r rne cb ab v show ?thesis by simp
  qed
qed

lemma dissolve_consistent:
  assumes inv: "consistentBut g {} {} s"
    and room: "rooms s r = Some (a, b)"
    and us: "\<And>x. x \<noteq> a \<Longrightarrow> x \<noteq> b \<Longrightarrow> users s' x = users s x"
    and ua: "\<exists>u. users s' a = Some u \<and> state u \<noteq> IN_CHAT"
    and ub: "\<exists>u. users s' b = Some u \<and> state u \<noteq> IN_CHAT"
    and rs: "rooms s' = (rooms s)(r := None)"
    and n: "uuidCalls s' = uuidCalls s"
    and p1: "distinct (waitingPool s')"
    and p2: "\<forall>x \<in> set (waitingPool s'). isSearching (users s' x)"
  shows "consistentBut g {} {} s'"
proof -
  from inv room have ab: "a \<noteq> b" "inChatIn s a r" "inChatIn s b r"
    unfolding consistentBut_def by blast+
  from inv have nil: "users s [] = None" by (simp add: consistentBut_def)
  with ab have "a \<noteq> []" "b \<noteq> []" by (auto simp: inChatIn_def)
  with us nil have 3: "users s' [] = None" by auto
  have 4: "\<forall>q m. rooms s' q = Some m \<longrightarrow> (\<exists>k < uuidCalls s'. q = g k)"
  proof (intro allI impI)
    fix q m assume "rooms s' q = Some m"
    then have "rooms s q = Some m" by (auto simp: rs split: if_splits)
    with inv n show "\<exists>k < uuidCalls s'. q = g k" unfolding consistentBut_def by auto
  qed
  have 6: "\<forall>q x y. rooms s' q = Some (x, y) \<and> q \<notin> {} \<longrightarrow>
        x \<noteq> y \<and> x \<notin> {} \<and> y \<notin> {} \<and> inChatIn s' x q \<and> inChatIn s' y q"
  proof (intro allI impI)
    fix q x y assume "rooms s' q = Some (x, y) \<and> q \<notin> {}"
    then have q: "q \<noteq> r" "rooms s q = Some (x, y)" by (auto simp: rs split: if_splits)
    with inv have xy: "x \<noteq> y" "inChatIn s x q" "inChatIn s y q"
      unfolding consistentBut_def by blast+
    with ab q have "x \<noteq> a" "x \<noteq> b" "y \<noteq> a" "y \<noteq> b"
      by (auto simp: inChatIn_def split: option.splits)
    with xy us show "x \<noteq> y \<and> x \<notin> {} \<and> y \<notin> {} \<and> inChatIn s' x q \<and> inChatIn s' y q"
      by (simp add: inChatIn_def)
  qed
  have 7: "\<forall>c u. users s' c = Some u \<and> state u = IN_CHAT \<and> c \<notin> {} \<longrightarrow>
        (\<exists>q x y. q \<notin> {} \<and> roomId u = Some q \<and> rooms s' q = Some (x, y) \<and> (c = x \<or> c = y))"
  proof (intro allI impI)
    fix c u assume h: "users s' c = Some u \<and> state u = IN_CHAT \<and> c \<notin> {}"
    with ua ub have c: "c \<noteq> a" "c \<noteq> b" by auto
    with h us have "users s c = Some u" by simp
    with inv h obtain q x y where
      q: "roomId u = Some q" "rooms s q = Some (x, y)" "c = x \<or> c = y"
      unfolding consistentBut_def by blast
    with room c have "q \<noteq> r" by auto
    with q show "\<exists>q x y. q \<notin> {} \<and> roomId u = Some q \<and> rooms s' q = Some (x, y) \<and> (c = x \<or> c = y)"
      by (auto simp: rs)
  qed
  from p1 p2 3 4 6 7 show ?thesis unfolding consistentBut_def by blast
qed

lemma pool_not_inChat:
  assumes inv: "consistentBut g D R s" and user: "users s c = Some u" "state u = IN_CHAT"
  shows "c \<notin> set (waitingPool s)"
proof
  assume "c \<in> set (waitingPool s)"
  with inv have "isSearching (users s c)" by (simp add: consistentBut_def)
  with user show False by (simp add: isSearching_def)
qed

lemma users_skipChatCleanup:
  "p \<noteq> c \<Longrightarrow> users s p = Some v \<Longrightarrow>
   users (skipChatCleanup c r p s) x =
     (if x = p then Some (toSearching v)
      else if x = c then map_option toSearching (users s c) else users s x)"
  by (simp add: skipChatCleanup_def Let_def users_updateUser)

lemma rooms_skipChatCleanup [simp]: "rooms (skipChatCleanup c r p s) = (rooms s)(r := None)"
  by (simp add: skipChatCleanup_def Let_def pushIfAbsent_def unshiftIfAbsent_def
        push_def unshift_def split: option.splits)

lemma uuidCalls_skipChatCleanup [simp]: "uuidCalls (skipChatCleanup c r p s) = uuidCalls s"
  by (simp add: skipChatCleanup_def Let_def pushIfAbsent_def unshiftIfAbsent_def
        push_def unshift_def deleteRoom_def split: option.splits)

lemma users_stopChatCleanup:
  "p \<noteq> c \<Longrightarrow> users s p = Some v \<Longrightarrow>
   users (stopChatCleanup c r p s) x =
     (if x = p then Some (toSearching v)
      else if x = c then map_option toIdle (users s c) else users s x)"
  by (simp add: stopChatCleanup_def Let_def users_updateUser)

lemma rooms_stopChatCleanup [simp]: "rooms (stopChatCleanup c r p s) = (rooms s)(r := None)"
  by (simp add: stopChatCleanup_def Let_def unshiftIfAbsent_def unshift_def
        split: option.splits)

lemma uuidCalls_stopChatCleanup [simp]: "uuidCalls (stopChatCleanup c r p s) = uuidCalls s"
  by (simp add: stopChatCleanup_def Let_def unshiftIfAbsent_def unshift_def deleteRoom_def
        split: option.splits)

lemma users_reportCleanup:
  "p \<noteq> c \<Longrightarrow> users s p = Some v \<Longrightarrow>
   users (reportCleanup c r p s) x =
     (if x = p then Some (toSearching v)
      else if x = c then map_option toIdle (users s c) else users s x)"
  by (simp add: reportCleanup_def Let_def users_updateUser)

text \<open>The three handlers that leave a chat and keep the user: the state they hand to
  tryMatch is consistent.\<close>

lemma leave_consistent:
  assumes inv: "consistentBut g {} {} s"
    and user: "users s c = Some u" "state u = IN_CHAT"
    and room: "rooms s r = Some m" "m = (c, p) \<or> m = (p, c)" "p \<noteq> c"
    and partner: "users s p = Some v" "state v = IN_CHAT"
    and us: "\<And>x. users s' x =
        (if x = p then Some (toSearching v) else if x = c then Some (f u) else users s x)"
    and f: "state (f u) = IDLE \<or> state (f u) = SEARCHING"
    and rs: "rooms s' = (rooms s)(r := None)"
    and n: "uuidCalls s' = uuidCalls s"
    and pool: "waitingPool s' = p # waitingPool s @ (if state (f u) = SEARCHING then [c] else [])"
  shows "consistentBut g {} {} s'"
proof -
  have cp: "c \<notin> set (waitingPool s)" "p \<notin> set (waitingPool s)"
    using pool_not_inChat [OF inv user] pool_not_inChat [OF inv partner] by simp_all
  from inv have d: "distinct (waitingPool s)"
    and srch: "\<forall>x \<in> set (waitingPool s). isSearching (users s x)"
    by (simp_all add: consistentBut_def)
  have p1: "distinct (waitingPool s')"
    using cp d room by (simp add: pool)
  have p2: "\<forall>x \<in> set (waitingPool s'). isSearching (users s' x)"
    using cp srch room by (auto simp: pool us isSearching_def toSearching_def)
  obtain a b where m: "m = (a, b)" by (cases m)
  with room have ab: "(a = c \<and> b = p) \<or> (a = p \<and> b = c)" by auto
  have ua: "\<exists>w. users s' a = Some w \<and> state w \<noteq> IN_CHAT"
    using ab f room by (auto simp: us toSearching_def)
  have ub: "\<exists>w. users s' b = Some w \<and> state w \<noteq> IN_CHAT"
    using ab f room by (auto simp: us toSearching_def)
  have other: "users s' x = users s x" if "x \<noteq> a" "x \<noteq> b" for x
    using that ab by (auto simp: us)
  from room m have "rooms s r = Some (a, b)" by simp
  from dissolve_consistent [OF inv this other ua ub rs n p1 p2] show ?thesis .
qed

lemma skipChat_consistent:
  assumes inj: "inj g" and ne: "\<And>n. g n \<noteq> []" and inv: "consistentBut g {} {} s"
  shows "consistentBut g {} {} (skipChat g c s)"
proof (cases "users s c")
  case None
  with inv show ?thesis by (simp add: skipChat_def)
next
  case (Some u)
  show ?thesis
  proof (cases "state u = IN_CHAT")
    case False
    with Some inv show ?thesis by (simp add: skipChat_def)
  next
    case True
    show ?thesis
    proof (rule inChat_room [OF inv ne Some True])
    fix r m p v
    assume r: "roomId u = Some r" "r \<noteq> []" "rooms s r = Some m" "partnerIn c m = Some p"
        "m = (c, p) \<or> m = (p, c)" "p \<noteq> c" "users s p = Some v" "state v = IN_CHAT"
        "roomId v = Some r"
    let ?k = "skipChatCleanup c r p s"
    have cp: "c \<notin> set (waitingPool s)" "p \<notin> set (waitingPool s)"
      using pool_not_inChat [OF inv Some True] pool_not_inChat [OF inv r(7,8)] by simp_all
    have "consistentBut g {} {} ?k"
    proof (rule leave_consistent [OF inv Some True r(3) r(5) r(6) r(7) r(8),
          where f = toSearching])
      show "users ?k x = (if x = p then Some (toSearching v)
          else if x = c then Some (toSearching u) else users s x)" for x
        using r(6,7) Some by (simp add: users_skipChatCleanup)
      show "state (toSearching u) = IDLE \<or> state (toSearching u) = SEARCHING"
        by (simp add: toSearching_def)
      show "waitingPool ?k =
          p # waitingPool s @ (if state (toSearching u) = SEARCHING then [c] else [])"
        using r(6,7) cp by (simp add: pool_skipChatCleanup_eq toSearching_def)
    qed simp_all
    then have "consistentBut g {} {} (tryMatch g ?k)"
      by (rule tryMatch_consistent [OF inj])
    moreover have "skipChat g c s = tryMatch g ?k"
      using Some True r(1-4) by (simp add: skipChat_def truthy_def)
    ultimately show ?thesis by simp
    qed
  qed
qed

lemma stopChat_consistent:
  assumes inj: "inj g" and ne: "\<And>n. g n \<noteq> []" and inv: "consistentBut g {} {} s"
  shows "consistentBut g {} {} (stopChat g c s)"
proof (cases "users s c")
  case None
  with inv show ?thesis by (simp add: stopChat_def)
next
  case (Some u)
  show ?thesis
  proof (cases "state u = IN_CHAT")
    case False
    with Some inv show ?thesis by (simp add: stopChat_def)
  next
    case True
    show ?thesis
    proof (rule inChat_room [OF inv ne Some True])
      fix r m p v
      assume r: "roomId u = Some r" "r \<noteq> []" "rooms s r = Some m" "partnerIn c m = Some p"
        "m = (c, p) \<or> m = (p, c)" "p \<noteq> c" "users s p = Some v" "state v = IN_CHAT"
        "roomId v = Some r"
      let ?k = "stopChatCleanup c r p s"
      have cp: "p \<notin> set (waitingPool s)"
        using pool_not_inChat [OF inv r(7,8)] by simp
      have "consistentBut g {} {} ?k"
      proof (rule leave_consistent [OF inv Some True r(3) r(5) r(6) r(7) r(8),
            where f = toIdle])
        show "users ?k x = (if x = p then Some (toSearching v)
            else if x = c then Some (toIdle u) else users s x)" for x
          using r(6,7) Some by (simp add: users_stopChatCleanup)
        show "state (toIdle u) = IDLE \<or> state (toIdle u) = SEARCHING"
          by (simp add: toIdle_def)
        show "waitingPool ?k =
            p # waitingPool s @ (if state (toIdle u) = SEARCHING then [c] else [])"
          using r(6,7) cp by (simp add: pool_stopChatCleanup_eq toIdle_def)
      qed simp_all
      then have "consistentBut g {} {} (tryMatch g ?k)"
        by (rule tryMatch_consistent [OF inj])
      moreover have "stopChat g c s = tryMatch g ?k"
        using Some True r(1-4) by (simp add: stopChat_def truthy_def)
      ultimately show ?thesis by simp
    qed
  qed
qed

lemma consistent_emitted [simp]:
  "consistentBut g D R (s\<lparr>emitted := es\<rparr>) = consistentBut g D R s"
  by (simp add: consistentBut_def inChatIn_def)

lemma initiateReport_consistent:
  assumes inj: "inj g" and ne: "\<And>n. g n \<noteq> []" and inv: "consistentBut g {} {} s"
    and named: "\<not> reportGuard s c q \<or> namesPartner s c q"
  shows "consistentBut g {} {} (initiateReport g c q shot log s)"
proof (cases "reportGuard s c q")
  case False
  with inv show ?thesis by (simp add: initiateReport_def)
next
  case True
  with named have np: "namesPartner s c q" by simp
  from True obtain u where u: "users s c = Some u" "state u = IN_CHAT"
    by (auto simp: reportGuard_def split: option.splits)
  show ?thesis
  proof (rule inChat_room [OF inv ne u])
    fix r m p v
    assume r: "roomId u = Some r" "r \<noteq> []" "rooms s r = Some m" "partnerIn c m = Some p"
      "m = (c, p) \<or> m = (p, c)" "p \<noteq> c" "users s p = Some v" "state v = IN_CHAT"
      "roomId v = Some r"
    from np u r(1,3,4) have q: "q = p" by (simp add: namesPartner_def)
    let ?k = "reportCleanup c r p s"
    have cp: "p \<notin> set (waitingPool s)"
      using pool_not_inChat [OF inv r(7,8)] by simp
    have "consistentBut g {} {} ?k"
    proof (rule leave_consistent [OF inv u r(3) r(5) r(6) r(7) r(8), where f = toIdle])
      show "users ?k x = (if x = p then Some (toSearching v)
          else if x = c then Some (toIdle u) else users s x)" for x
        using r(6,7) u by (simp add: users_reportCleanup)
      show "state (toIdle u) = IDLE \<or> state (toIdle u) = SEARCHING"
        by (simp add: toIdle_def)
      show "waitingPool ?k =
          p # waitingPool s @ (if state (toIdle u) = SEARCHING then [c] else [])"
        using cp by (simp add: pool_reportCleanup_eq toIdle_def)
    qed simp_all
    then have "consistentBut g {} {} (tryMatch g ?k)"
      by (rule tryMatch_consistent [OF inj])
    moreover have "initiateReport g c q shot log s = invokeReport c p shot log (tryMatch g ?k)"
      using True u r(1) q by (simp add: initiateReport_def)
    ultimately show ?thesis by (simp add: invokeReport_def)
  qed
qed

lemma startSearching_consistent:
  assumes inj: "inj g" and inv: "consistentBut g {} {} s"
  shows "consistentBut g {} {} (startSearching g c prof s)"
proof (cases "users s c")
  case None
  with inv show ?thesis by (simp add: startSearching_def)
next
  case (Some u)
  show ?thesis
  proof (cases "state u = IN_CHAT")
    case True
    with Some inv show ?thesis by (simp add: startSearching_def)
  next
    case False
    let ?f = "\<lambda>u. u\<lparr>state := SEARCHING, profile := Some prof,
                     persistentId := Some (profileId prof)\<rparr>"
    let ?k = "pushIfAbsent c (updateUser c ?f s)"
    have us: "users (updateUser c ?f s) x = (if x = c then Some (?f u) else users s x)" for x
      using Some by (simp add: users_updateUser)
    have rs: "rooms ?k = rooms s" "uuidCalls ?k = uuidCalls s"
      by (simp_all add: pushIfAbsent_def push_def)
    have pool: "set (waitingPool ?k) = insert c (set (waitingPool s))"
      "distinct (waitingPool ?k) = distinct (waitingPool s)"
      by (auto simp: waitingPool_pushIfAbsent)
    have other: "inChatIn ?k x r = inChatIn s x r" for x r
      using Some False by (auto simp: inChatIn_def us)
    from Some inv have "c \<noteq> []" by (auto simp: consistentBut_def)
    with inv Some False have "consistentBut g {} {} ?k"
      unfolding consistentBut_def pool rs other
      by (auto simp: us isSearching_def)
    then have "consistentBut g {} {} (tryMatch g ?k)"
      by (rule tryMatch_consistent [OF inj])
    moreover from Some False have "startSearching g c prof s = tryMatch g ?k"
      by (cases "state u") (simp_all add: startSearching_def)
    ultimately show ?thesis by simp
  qed
qed

lemma stopSearching_consistent:
  assumes inv: "consistentBut g {} {} s"
  shows "consistentBut g {} {} (stopSearching c s)"
proof (cases "users s c")
  case None
  with inv show ?thesis by (simp add: stopSearching_def)
next
  case (Some u)
  show ?thesis
  proof (cases "state u = SEARCHING")
    case False
    with Some inv show ?thesis by (simp add: stopSearching_def)
  next
    case True
    let ?k = "updateUser c (\<lambda>u. u\<lparr>state := IDLE\<rparr>) (removeFromPool c s)"
    have us: "users ?k x = (if x = c then Some (u\<lparr>state := IDLE\<rparr>) else users s x)" for x
      using Some by (simp add: users_updateUser)
    have rs: "rooms ?k = rooms s" "uuidCalls ?k = uuidCalls s"
      by (simp_all add: removeFromPool_def)
    from inv have d: "distinct (waitingPool s)" by (simp add: consistentBut_def)
    then have pool: "set (waitingPool ?k) = set (waitingPool s) - {c}"
      "distinct (waitingPool ?k)"
      by simp_all
    have other: "inChatIn ?k x r = inChatIn s x r" for x r
      using Some True by (auto simp: inChatIn_def us)
    from Some inv have "c \<noteq> []" by (auto simp: consistentBut_def)
    with inv Some True have "consistentBut g {} {} ?k"
      unfolding consistentBut_def pool rs other
      by (auto simp: us isSearching_def)
    with Some True show ?thesis by (simp add: stopSearching_def)
  qed
qed

lemma connection_consistent:
  assumes inv: "consistentBut g {} {} s" and new: "c \<noteq> []" "users s c = None"
  shows "consistentBut g {} {} (connection c s)"
proof -
  let ?k = "connection c s"
  have us: "users ?k x = (if x = c
      then Some \<lparr>state = IDLE, roomId = None, profile = None, persistentId = None\<rparr>
      else users s x)" for x
    by (simp add: connection_def)
  have rs: "rooms ?k = rooms s" "uuidCalls ?k = uuidCalls s" "waitingPool ?k = waitingPool s"
    by (simp_all add: connection_def)
  have other: "inChatIn ?k x r = inChatIn s x r" for x r
    using new by (auto simp: inChatIn_def us)
  have srch: "isSearching (users ?k x) = isSearching (users s x)" for x
    using new by (auto simp: isSearching_def us)
  from inv new show ?thesis
    unfolding consistentBut_def rs other srch
    by (auto simp: us)
qed

lemma requeue_consistent:
  assumes inv: "consistentBut g {} {} s"
    and user: "users s c = Some u" "state u = IN_CHAT" "roomId u = Some r"
    and room: "rooms s r = Some m" "m = (c, p) \<or> m = (p, c)" "p \<noteq> c"
    and partner: "users s p = Some v" "state v = IN_CHAT" "roomId v = Some r"
    and us: "\<And>x. users s' x = (if x = p then Some (toSearching v) else users s x)"
    and rs: "rooms s' = rooms s"
    and n: "uuidCalls s' = uuidCalls s"
    and pool: "waitingPool s' = p # waitingPool s"
  shows "consistentBut g {c} {r} s'"
proof -
  have cp: "c \<notin> set (waitingPool s)" "p \<notin> set (waitingPool s)"
    using pool_not_inChat [OF inv user(1,2)] pool_not_inChat [OF inv partner(1,2)]
    by simp_all
  from inv have d: "distinct (waitingPool s)"
    and srch: "\<forall>x \<in> set (waitingPool s). isSearching (users s x)"
    and nil: "users s [] = None"
    by (simp_all add: consistentBut_def)
  have 1: "distinct (waitingPool s')" using cp d by (simp add: pool)
  have 2: "\<forall>x \<in> set (waitingPool s'). isSearching (users s' x) \<and> x \<notin> {c}"
    using cp srch room by (auto simp: pool us isSearching_def toSearching_def)
  have 3: "users s' [] = None" using nil partner by (auto simp: us)
  have 4: "\<forall>q k. rooms s' q = Some k \<longrightarrow> (\<exists>i < uuidCalls s'. q = g i)"
    using inv unfolding consistentBut_def rs n by blast
  from 4 room have 5: "\<forall>q \<in> {r}. \<exists>i < uuidCalls s'. q = g i"
    by (simp add: rs)
  have 6: "\<forall>q x y. rooms s' q = Some (x, y) \<and> q \<notin> {r} \<longrightarrow>
        x \<noteq> y \<and> x \<notin> {c} \<and> y \<notin> {c} \<and> inChatIn s' x q \<and> inChatIn s' y q"
  proof (intro allI impI)
    fix q x y assume "rooms s' q = Some (x, y) \<and> q \<notin> {r}"
    then have q: "q \<noteq> r" "rooms s q = Some (x, y)" by (simp_all add: rs)
    with inv have xy: "x \<noteq> y" "inChatIn s x q" "inChatIn s y q"
      unfolding consistentBut_def by blast+
    with user partner q have "x \<noteq> c" "x \<noteq> p" "y \<noteq> c" "y \<noteq> p"
      by (auto simp: inChatIn_def)
    with xy show "x \<noteq> y \<and> x \<notin> {c} \<and> y \<notin> {c} \<and> inChatIn s' x q \<and> inChatIn s' y q"
      by (simp add: inChatIn_def us)
  qed
  have 7: "\<forall>x w. users s' x = Some w \<and> state w = IN_CHAT \<and> x \<notin> {c} \<longrightarrow>
        (\<exists>q a b. q \<notin> {r} \<and> roomId w = Some q \<and> rooms s' q = Some (a, b) \<and> (x = a \<or> x = b))"
  proof (intro allI impI)
    fix x w assume h: "users s' x = Some w \<and> state w = IN_CHAT \<and> x \<notin> {c}"
    then have x: "x \<noteq> p" "x \<noteq> c" by (auto simp: us toSearching_def split: if_splits)
    with h have "users s x = Some w" by (simp add: us)
    with inv h obtain q a b where
      q: "roomId w = Some q" "rooms s q = Some (a, b)" "x = a \<or> x = b"
      unfolding consistentBut_def by blast
    with room x have "q \<noteq> r" by auto
    with q show "\<exists>q a b. q \<notin> {r} \<and> roomId w = Some q \<and> rooms s' q = Some (a, b) \<and>
        (x = a \<or> x = b)"
      by (auto simp: rs)
  qed
  from 1 2 3 4 5 6 7 show ?thesis unfolding consistentBut_def by blast
qed

lemma bury_consistent:
  assumes inv: "consistentBut g {c} {r} t"
    and us: "users t' = (users t)(c := None)"
    and rs: "rooms t' = (rooms t)(r := None)"
    and n: "uuidCalls t' = uuidCalls t"
    and pool: "waitingPool t' = waitingPool t"
  shows "consistentBut g {} {} t'"
proof -
  from inv have 1: "distinct (waitingPool t')" by (simp add: consistentBut_def pool)
  from inv have 2: "\<forall>x \<in> set (waitingPool t'). isSearching (users t' x) \<and> x \<notin> {}"
    by (auto simp: consistentBut_def pool us)
  from inv have 3: "users t' [] = None" by (simp add: consistentBut_def us)
  have 4: "\<forall>q k. rooms t' q = Some k \<longrightarrow> (\<exists>i < uuidCalls t'. q = g i)"
  proof (intro allI impI)
    fix q k assume "rooms t' q = Some k"
    then have "rooms t q = Some k" by (auto simp: rs split: if_splits)
    with inv show "\<exists>i < uuidCalls t'. q = g i" unfolding consistentBut_def n by blast
  qed
  have 6: "\<forall>q x y. rooms t' q = Some (x, y) \<and> q \<notin> {} \<longrightarrow>
        x \<noteq> y \<and> x \<notin> {} \<and> y \<notin> {} \<and> inChatIn t' x q \<and> inChatIn t' y q"
  proof (intro allI impI)
    fix q x y assume "rooms t' q = Some (x, y) \<and> q \<notin> {}"
    then have "rooms t q = Some (x, y) \<and> q \<notin> {r}" by (auto simp: rs split: if_splits)
    with inv have "x \<noteq> y \<and> x \<notin> {c} \<and> y \<notin> {c} \<and> inChatIn t x q \<and> inChatIn t y q"
      unfolding consistentBut_def by blast
    then show "x \<noteq> y \<and> x \<notin> {} \<and> y \<notin> {} \<and> inChatIn t' x q \<and> inChatIn t' y q"
      by (simp add: inChatIn_def us)
  qed
  have 7: "\<forall>x w. users t' x = Some w \<and> state w = IN_CHAT \<and> x \<notin> {} \<longrightarrow>
        (\<exists>q a b. q \<notin> {} \<and> roomId w = Some q \<and> rooms t' q = Some (a, b) \<and> (x = a \<or> x = b))"
  proof (intro allI impI)
    fix x w assume h: "users t' x = Some w \<and> state w = IN_CHAT \<and> x \<notin> {}"
    then have "users t x = Some w \<and> state w = IN_CHAT \<and> x \<notin> {c}"
      by (auto simp: us split: if_splits)
    with inv obtain q a b where
      "q \<notin> {r}" "roomId w = Some q" "rooms t q = Some (a, b)" "x = a \<or> x = b"
      unfolding consistentBut_def by blast
    then show "\<exists>q a b. q \<notin> {} \<and> roomId w = Some q \<and> rooms t' q = Some (a, b) \<and>
        (x = a \<or> x = b)"
      by (auto simp: rs)
  qed
  from 1 2 3 4 6 7 show ?thesis unfolding consistentBut_def by blast
qed

lemma forget_consistent:
  assumes inv: "consistentBut g {} {} s"
    and user: "users s c = Some u" "state u \<noteq> IN_CHAT"
  shows "consistentBut g {} {}
           (removeFromPool c s\<lparr>users := (users (removeFromPool c s))(c := None)\<rparr>)"
proof -
  let ?k = "removeFromPool c s\<lparr>users := (users (removeFromPool c s))(c := None)\<rparr>"
  from inv have d: "distinct (waitingPool s)" by (simp add: consistentBut_def)
  then have pool: "set (waitingPool ?k) = set (waitingPool s) - {c}"
    "distinct (waitingPool ?k)"
    by simp_all
  have us: "users ?k x = (if x = c then None else users s x)" for x
    by simp
  have rs: "rooms ?k = rooms s" "uuidCalls ?k = uuidCalls s"
    by (simp_all add: removeFromPool_def)
  have other: "inChatIn ?k x r = inChatIn s x r" for x r
    using user by (auto simp: inChatIn_def)
  from inv user show ?thesis
    unfolding consistentBut_def pool rs other
    by (auto simp: us)
qed

lemma handleDisconnect_consistent:
  assumes inj: "inj g" and ne: "\<And>n. g n \<noteq> []" and inv: "consistentBut g {} {} s"
  shows "consistentBut g {} {} (handleDisconnect g c s)"
proof (cases "users s c")
  case None
  with inv show ?thesis by (simp add: handleDisconnect_def)
next
  case (Some u)
  show ?thesis
  proof (cases "state u = IN_CHAT")
    case False
    then have "handleDisconnect g c s =
        removeFromPool c s\<lparr>users := (users (removeFromPool c s))(c := None)\<rparr>"
      using Some by (simp add: handleDisconnect_def disconnectRoom_def Let_def)
    with forget_consistent [OF inv Some False] show ?thesis by simp
  next
    case True
    show ?thesis
    proof (rule inChat_room [OF inv ne Some True])
      fix r m p v
      assume r: "roomId u = Some r" "r \<noteq> []" "rooms s r = Some m" "partnerIn c m = Some p"
        "m = (c, p) \<or> m = (p, c)" "p \<noteq> c" "users s p = Some v" "state v = IN_CHAT"
        "roomId v = Some r"
      let ?k = "disconnectRequeue p (emit p PartnerDisconnected (removeFromPool c s))"
      let ?t = "tryMatch g ?k"
      have c: "c \<notin> set (waitingPool s)"
        using pool_not_inChat [OF inv Some True] by simp
      have "consistentBut g {c} {r} ?k"
      proof (rule requeue_consistent [OF inv Some True r(1) r(3) r(5) r(6) r(7) r(8) r(9)])
        show "users ?k x = (if x = p then Some (toSearching v) else users s x)" for x
          using r(7) by (simp add: disconnectRequeue_def users_updateUser)
        show "waitingPool ?k = p # waitingPool s"
          using c by (simp add: disconnectRequeue_def remove1_idem)
      qed (simp_all add: disconnectRequeue_def unshift_def removeFromPool_def)
      then have t: "consistentBut g {c} {r} ?t"
        by (rule tryMatch_consistent [OF inj])
      have eq: "handleDisconnect g c s = deleteRoom r ?t\<lparr>users := (users (deleteRoom r ?t))(c := None)\<rparr>"
        using Some True r(1-4,7)
        by (simp add: handleDisconnect_def disconnectRoom_def Let_def truthy_def)
      have "consistentBut g {} {} (deleteRoom r ?t\<lparr>users := (users (deleteRoom r ?t))(c := None)\<rparr>)"
        by (rule bury_consistent [OF t]) (simp_all add: deleteRoom_def)
      with eq show ?thesis by simp
    qed
  qed
qed

lemma handle_consistent:
  assumes inj: "inj g" and ne: "\<And>n. g n \<noteq> []" and inv: "consistentBut g {} {} s"
    and adm: "admissible s e"
  shows "consistentBut g {} {} (handle g e s)"
proof (cases e)
  case (Connection c)
  with adm connection_consistent [OF inv, of c] show ?thesis by (simp add: admissible_def)
next
  case (StartSearching c p)
  with startSearching_consistent [OF inj inv] show ?thesis by simp
next
  case (StopSearching c)
  with stopSearching_consistent [OF inv] show ?thesis by simp
next
  case (SkipChat c)
  with skipChat_consistent [OF inj ne inv] show ?thesis by simp
next
  case (StopChat c)
  with stopChat_consistent [OF inj ne inv] show ?thesis by simp
next
  case (InitiateReport c p shot log)
  with adm have "\<not> reportGuard s c p \<or> namesPartner s c p" by (simp add: admissible_def)
  from initiateReport_consistent [OF inj ne inv this] InitiateReport show ?thesis by simp
next
  case (Disconnect c)
  with handleDisconnect_consistent [OF inj ne inv] show ?thesis by simp
qed (use inv in \<open>simp_all add: offer_def answer_def iceCandidate_def chatMessage_def
       reportSettled_def emit_def split: option.splits\<close>)

lemma foldl_consistent:
  assumes inj: "inj g" and ne: "\<And>n. g n \<noteq> []"
  shows "consistentBut g {} {} s \<Longrightarrow> admissibleRun g s evs \<Longrightarrow>
         consistentBut g {} {} (foldl (\<lambda>s e. handle g e s) s evs)"
proof (induction evs arbitrary: s)
  case Nil
  then show ?case by simp
next
  case (Cons e evs)
  from Cons.prems have "consistentBut g {} {} (handle g e s)"
    by (intro handle_consistent [OF inj ne]) simp_all
  with Cons.IH [of "handle g e s"] Cons.prems show ?case by simp
qed

lemma rooms_consistent_when_reports_name_partner:
  assumes inj: "inj g" and ne: "\<And>n. g n \<noteq> []"
    and adm: "admissibleRun g initialState evs"
  shows "roomsConsistent (run g evs)"
proof -
  have "consistentBut g {} {} initialState"
    by (simp add: consistentBut_def initialState_def)
  from foldl_consistent [OF inj ne this adm]
  have "consistentBut g {} {} (run g evs)" by (simp add: run_def)
  then show ?thesis unfolding consistentBut_def roomsConsistent_def by blast
qed

section \<open>The waiting pool\<close>

text \<open>
  Between events the pool holds at most one entry, so no id twice: every handler that
  adds to the pool runs \<open>tryMatch\<close> before it returns. This holds whatever the insert
  does, so it says nothing about the inserts themselves; they follow.
\<close>

lemma pool_short_between_events:
  "distinct (waitingPool (run uuidv4 evs)) \<and> length (waitingPool (run uuidv4 evs)) \<le> 1"
  using run_short [of uuidv4 evs] by (cases "waitingPool (run uuidv4 evs)") auto

text \<open>
  The inserts of start-searching, skip-chat, stop-chat and initiate-report test
  \<open>includes\<close> first and keep a pool without duplicates as it is. The insert of
  \<open>handleDisconnect\<close> does not test: it adds one more entry for the partner whatever the
  pool holds.
\<close>

lemma guarded_insert_distinct:
  "distinct (waitingPool s) \<Longrightarrow>
   distinct (waitingPool (pushIfAbsent c s)) \<and> distinct (waitingPool (unshiftIfAbsent c s))"
  by (simp add: waitingPool_pushIfAbsent waitingPool_unshiftIfAbsent)

lemma disconnectRequeue_count:
  "count_list (waitingPool (disconnectRequeue p s)) p = Suc (count_list (waitingPool s) p)"
  by (simp add: disconnectRequeue_def)

text \<open>
  C2. The requeue of the partner on a disconnect can put an id in the pool twice. After
  x, paired with y, reports z, who is paired with w, the pool is [z] and z is still a
  member of room rr. When w then disconnects, \<open>handleDisconnect\<close> puts z at the front
  of the pool without looking, \<open>tryMatch\<close> runs on the pool [z, z], and z is paired
  with itself in room rrr.
\<close>

theorem disconnect_requeue_duplicates_partner:
  "waitingPool (run sampleUuid strangerReport) = [''z''] \<and>
   handleDisconnect sampleUuid ''w'' (run sampleUuid strangerReport) =
     (let s1 = emit ''z'' PartnerDisconnected
                 (removeFromPool ''w'' (run sampleUuid strangerReport));
          s2 = deleteRoom ''rr'' (tryMatch sampleUuid (disconnectRequeue ''z'' s1))
      in s2\<lparr>users := (users s2)(''w'' := None)\<rparr>) \<and>
   waitingPool (disconnectRequeue ''z'' (emit ''z'' PartnerDisconnected
      (removeFromPool ''w'' (run sampleUuid strangerReport)))) = [''z'', ''z''] \<and>
   waitingPool (run sampleUuid (strangerReport @ [Disconnect ''w''])) = [] \<and>
   rooms (run sampleUuid (strangerReport @ [Disconnect ''w''])) ''rrr'' = Some (''z'', ''z'') \<and>
   users (run sampleUuid (strangerReport @ [Disconnect ''w''])) ''z'' =
     Some (sampleUser IN_CHAT (Some ''rrr'') ''pz'')"
proof -
  let ?s = "run sampleUuid strangerReport"
  have pre: "users ?s ''w'' = Some (sampleUser IN_CHAT (Some ''rr'') ''pw'') \<and>
      rooms ?s ''rr'' = Some (''z'', ''w'') \<and>
      partnerIn ''w'' (''z'', ''w'') = Some ''z'' \<and>
      users ?s ''z'' = Some (sampleUser SEARCHING None ''pz'')"
    by code_simp
  then have step: "handleDisconnect sampleUuid ''w'' ?s =
     (let s1 = emit ''z'' PartnerDisconnected (removeFromPool ''w'' ?s);
          s2 = deleteRoom ''rr'' (tryMatch sampleUuid (disconnectRequeue ''z'' s1))
      in s2\<lparr>users := (users s2)(''w'' := None)\<rparr>)"
    by (simp add: handleDisconnect_def disconnectRoom_def Let_def truthy_def sampleUser_def)
  have vals: "waitingPool ?s = [''z''] \<and>
      waitingPool (disconnectRequeue ''z'' (emit ''z'' PartnerDisconnected
        (removeFromPool ''w'' ?s))) = [''z'', ''z''] \<and>
      waitingPool (run sampleUuid (strangerReport @ [Disconnect ''w''])) = [] \<and>
      rooms (run sampleUuid (strangerReport @ [Disconnect ''w''])) ''rrr'' = Some (''z'', ''z'') \<and>
      users (run sampleUuid (strangerReport @ [Disconnect ''w''])) ''z'' =
        Some (sampleUser IN_CHAT (Some ''rrr'') ''pz'')"
    by code_simp
  from step vals show ?thesis by blast
qed

text \<open>
  C9. After any sequence of events every socket id in the waiting pool is a key of
  \<open>users\<close>. Only the disconnect handler removes a key, and the id of the socket that
  disconnected is not in the pool afterwards. (An entry may still name a user whose
  state is not SEARCHING.)
\<close>

theorem waitingPool_ids_are_users:
  "set (waitingPool (run uuidv4 evs)) \<subseteq> dom (users (run uuidv4 evs)) \<and>
   dom (users s) - (case e of Disconnect d \<Rightarrow> {d} | _ \<Rightarrow> {}) \<subseteq> dom (users (handle uuidv4 e s)) \<and>
   c \<notin> set (waitingPool (run uuidv4 (evs @ [Disconnect c]))) \<and>
   users (run uuidv4 (evs @ [Disconnect c])) c = None"
proof -
  have keep: "dom (users s) - (case e of Disconnect d \<Rightarrow> {d} | _ \<Rightarrow> {})
                \<subseteq> dom (users (handle uuidv4 e s))"
  proof (cases e)
    case (Disconnect d)
    have "dom (users s) - {d} \<subseteq> dom (users (handleDisconnect uuidv4 d s))"
      by (cases "users s d") (auto simp: handleDisconnect_def Let_def)
    with Disconnect show ?thesis by simp
  next
    case (StartSearching a b)
    have "dom (users s) \<subseteq> dom (users (startSearching uuidv4 a b s))"
      by (cases "users s a") (simp_all add: startSearching_def)
    with StartSearching show ?thesis by simp
  next
    case (StopSearching a)
    have "dom (users s) \<subseteq> dom (users (stopSearching a s))"
      by (cases "users s a") (simp_all add: stopSearching_def)
    with StopSearching show ?thesis by simp
  next
    case (SkipChat a)
    have "dom (users s) \<subseteq> dom (users (skipChat uuidv4 a s))"
      by (simp add: skipChat_def split: option.splits)
    with SkipChat show ?thesis by simp
  next
    case (StopChat a)
    have "dom (users s) \<subseteq> dom (users (stopChat uuidv4 a s))"
      by (simp add: stopChat_def split: option.splits)
    with StopChat show ?thesis by simp
  next
    case (InitiateReport a b shot log)
    have "dom (users s) \<subseteq> dom (users (initiateReport uuidv4 a b shot log s))"
      by (simp add: initiateReport_def split: option.splits)
    with InitiateReport show ?thesis by simp
  qed (auto simp: connection_def offer_def answer_def iceCandidate_def chatMessage_def
         reportSettled_def split: option.splits)
  have gone: "users (handleDisconnect uuidv4 c s') c = None" for s'
    by (cases "users s' c") (simp_all add: handleDisconnect_def Let_def)
  then have none: "users (run uuidv4 (evs @ [Disconnect c])) c = None"
    by (simp add: run_snoc)
  with run_known [of uuidv4 "evs @ [Disconnect c]"]
  have "c \<notin> set (waitingPool (run uuidv4 (evs @ [Disconnect c])))"
    by auto
  with keep none run_known [of uuidv4 evs] show ?thesis by simp
qed

theorem waitingPool_ids_are_users_witness:
  "waitingPool (run sampleUuid
      [Connection ''x'', StartSearching ''x'' (sampleProfile ''px''), Connection ''y'']) = [''x''] \<and>
   set (waitingPool (run sampleUuid
      [Connection ''x'', StartSearching ''x'' (sampleProfile ''px''), Connection ''y'']))
     \<subseteq> dom (users (run sampleUuid
      [Connection ''x'', StartSearching ''x'' (sampleProfile ''px''), Connection ''y'']))"
proof
  show "waitingPool (run sampleUuid
      [Connection ''x'', StartSearching ''x'' (sampleProfile ''px''), Connection ''y'']) = [''x'']"
    by code_simp
  show "set (waitingPool (run sampleUuid
      [Connection ''x'', StartSearching ''x'' (sampleProfile ''px''), Connection ''y'']))
     \<subseteq> dom (users (run sampleUuid
      [Connection ''x'', StartSearching ''x'' (sampleProfile ''px''), Connection ''y'']))"
    using waitingPool_ids_are_users
      [of sampleUuid "[Connection ''x'', StartSearching ''x'' (sampleProfile ''px''),
          Connection ''y'']"]
    by blast
qed

section \<open>The match notification\<close>



section \<open>The relay\<close>

text \<open>
  C8. A chat-message event is forwarded to the target it names, tagged with the id of
  the sending socket, when the sender has a user object in state IN_CHAT (and the target
  is not empty); from any other state nothing is sent and nothing changes. Offer, answer
  and ice-candidate events are forwarded to the named target, tagged with the sender's
  id, whatever the state of the sender, even when the sender has no user object.
\<close>

theorem relay_gating:
  "(users s c = Some u \<and> state u = IN_CHAT \<and> p \<noteq> [] \<longrightarrow>
      handle uuidv4 (ChatMessage c p m) s = s\<lparr>emitted := emitted s @ [Emit p (ChatMessageOut m c)]\<rparr>) \<and>
   (users s c = Some u \<and> state u \<noteq> IN_CHAT \<longrightarrow> handle uuidv4 (ChatMessage c p m) s = s) \<and>
   (users s c = None \<longrightarrow> handle uuidv4 (ChatMessage c p m) s = s) \<and>
   handle uuidv4 (Offer c p d) s = s\<lparr>emitted := emitted s @ [Emit p (OfferOut d c)]\<rparr> \<and>
   handle uuidv4 (Answer c p d) s = s\<lparr>emitted := emitted s @ [Emit p (AnswerOut d c)]\<rparr> \<and>
   handle uuidv4 (IceCandidate c p d) s =
     s\<lparr>emitted := emitted s @ [Emit p (IceCandidateOut d c)]\<rparr>"
  by (simp add: chatMessage_def offer_def answer_def iceCandidate_def emit_def)

theorem relay_gating_witness:
  "map_option state (users matched2 ''x'') = Some IN_CHAT \<and>
   emitted (handle sampleUuid (ChatMessage ''x'' ''y'' ''hi'') matched2) =
     emitted matched2 @ [Emit ''y'' (ChatMessageOut ''hi'' ''x'')] \<and>
   map_option state (users waiting2 ''x'') = Some SEARCHING \<and>
   handle sampleUuid (ChatMessage ''x'' ''y'' ''hi'') waiting2 = waiting2 \<and>
   emitted (handle sampleUuid (Offer ''x'' ''y'' ''sdp'') waiting2) =
     emitted waiting2 @ [Emit ''y'' (OfferOut ''sdp'' ''x'')] \<and>
   users initialState ''x'' = None \<and>
   handle sampleUuid (ChatMessage ''x'' ''y'' ''hi'') initialState = initialState"
proof -
  obtain u where u: "users matched2 ''x'' = Some u" "state u = IN_CHAT"
  proof -
    have "map_option state (users matched2 ''x'') = Some IN_CHAT" by code_simp
    then show ?thesis using that by auto
  qed
  obtain v where v: "users waiting2 ''x'' = Some v" "state v = SEARCHING"
  proof -
    have "map_option state (users waiting2 ''x'') = Some SEARCHING" by code_simp
    then show ?thesis using that by auto
  qed
  from u relay_gating [of matched2 "''x''" u "''y''" sampleUuid "''hi''"]
  have 1: "emitted (handle sampleUuid (ChatMessage ''x'' ''y'' ''hi'') matched2) =
     emitted matched2 @ [Emit ''y'' (ChatMessageOut ''hi'' ''x'')]"
    by simp
  from v relay_gating [of waiting2 "''x''" v "''y''" sampleUuid "''hi''" "''sdp''"]
  have 2: "handle sampleUuid (ChatMessage ''x'' ''y'' ''hi'') waiting2 = waiting2"
    and 3: "emitted (handle sampleUuid (Offer ''x'' ''y'' ''sdp'') waiting2) =
     emitted waiting2 @ [Emit ''y'' (OfferOut ''sdp'' ''x'')]"
    by simp_all
  have n: "users initialState ''x'' = None" by (simp add: initialState_def)
  with relay_gating [of initialState "''x''" undefined "''y''" sampleUuid "''hi''"]
  have 4: "handle sampleUuid (ChatMessage ''x'' ''y'' ''hi'') initialState = initialState"
    by simp
  from u v 1 2 3 4 n show ?thesis by simp
qed

section \<open>The contract of tryMatch\<close>

text \<open>
  C3. One call of \<open>tryMatch\<close>, on any state:
  with fewer than two entries in the pool it returns the state unchanged;
  with entries a, b first, if a has no user in state SEARCHING then a alone is dropped
  and the loop goes on with b back at the front; if a is fine and b is not, b alone is
  dropped and the loop goes on with a back at the front (the id that goes back is a
  socket id, a non-empty string: the code tests it for truthiness before it puts it
  back); if both are fine, the loop goes on with both out of the pool and a room with
  the next id registered for (a, b), and at the end of the call the user objects of a
  and b are what they were but for \<open>state\<close>, which is IN_CHAT, and \<open>roomId\<close>, which is
  the id of that room; when the generator never returns the same id twice, that room is
  still registered then.
  When the ids still to come are not keys of \<open>rooms\<close>, every room present before the
  call is present after it. The call ends with fewer than two entries in the pool, and
  calling it again changes nothing.
\<close>

theorem tryMatch_contract:
  "(length (waitingPool s) < 2 \<longrightarrow> tryMatch uuidv4 s = s) \<and>
   (waitingPool s = a # b # rest \<and> \<not> isSearching (users s a) \<and> b \<noteq> [] \<longrightarrow>
      tryMatch uuidv4 s = tryMatch uuidv4 (s\<lparr>waitingPool := b # rest\<rparr>)) \<and>
   (waitingPool s = a # b # rest \<and> isSearching (users s a) \<and> \<not> isSearching (users s b) \<and>
    a \<noteq> [] \<longrightarrow>
      tryMatch uuidv4 s = tryMatch uuidv4 (s\<lparr>waitingPool := a # rest\<rparr>)) \<and>
   (waitingPool s = a # b # rest \<and> isSearching (users s a) \<and> isSearching (users s b) \<longrightarrow>
      tryMatch uuidv4 s = tryMatch uuidv4 (createRoom uuidv4 a b (s\<lparr>waitingPool := rest\<rparr>)) \<and>
      waitingPool (createRoom uuidv4 a b (s\<lparr>waitingPool := rest\<rparr>)) = rest \<and>
      rooms (createRoom uuidv4 a b (s\<lparr>waitingPool := rest\<rparr>)) =
        (rooms s)(uuidv4 (uuidCalls s) \<mapsto> (a, b)) \<and>
      users (tryMatch uuidv4 s) a =
        map_option (\<lambda>u. u\<lparr>state := IN_CHAT, roomId := Some (uuidv4 (uuidCalls s))\<rparr>) (users s a) \<and>
      users (tryMatch uuidv4 s) b =
        map_option (\<lambda>u. u\<lparr>state := IN_CHAT, roomId := Some (uuidv4 (uuidCalls s))\<rparr>) (users s b) \<and>
      map_option state (users (tryMatch uuidv4 s) a) = Some IN_CHAT \<and>
      map_option roomId (users (tryMatch uuidv4 s) a) = Some (Some (uuidv4 (uuidCalls s))) \<and>
      map_option state (users (tryMatch uuidv4 s) b) = Some IN_CHAT \<and>
      map_option roomId (users (tryMatch uuidv4 s) b) = Some (Some (uuidv4 (uuidCalls s))) \<and>
      (inj uuidv4 \<longrightarrow> rooms (tryMatch uuidv4 s) (uuidv4 (uuidCalls s)) = Some (a, b))) \<and>
   ((\<forall>n. uuidCalls s \<le> n \<longrightarrow> rooms s (uuidv4 n) = None) \<longrightarrow>
      (\<forall>r m. rooms s r = Some m \<longrightarrow> rooms (tryMatch uuidv4 s) r = Some m)) \<and>
   length (waitingPool (tryMatch uuidv4 s)) < 2 \<and>
   tryMatch uuidv4 (tryMatch uuidv4 s) = tryMatch uuidv4 s"
proof -
  have none: "tryMatch uuidv4 s = s" if "length (waitingPool s) < 2"
    using that by (simp add: tryMatch.simps [of uuidv4 s])
  have stale1: "tryMatch uuidv4 s = tryMatch uuidv4 (s\<lparr>waitingPool := b # rest\<rparr>)"
    if "waitingPool s = a # b # rest" "\<not> isSearching (users s a)" "b \<noteq> []"
  proof -
    from that have "matchStep uuidv4 s = s\<lparr>waitingPool := b # rest\<rparr>"
      by (simp add: matchStep_def Let_def unshift_def)
    with that show ?thesis by (simp add: tryMatch.simps [of uuidv4 s])
  qed
  have stale2: "tryMatch uuidv4 s = tryMatch uuidv4 (s\<lparr>waitingPool := a # rest\<rparr>)"
    if "waitingPool s = a # b # rest" "isSearching (users s a)" "\<not> isSearching (users s b)"
      "a \<noteq> []"
  proof -
    from that have "matchStep uuidv4 s = s\<lparr>waitingPool := a # rest\<rparr>"
      by (simp add: matchStep_def Let_def unshift_def)
    with that show ?thesis by (simp add: tryMatch.simps [of uuidv4 s])
  qed
  have pair: "tryMatch uuidv4 s = tryMatch uuidv4 (createRoom uuidv4 a b (s\<lparr>waitingPool := rest\<rparr>)) \<and>
      waitingPool (createRoom uuidv4 a b (s\<lparr>waitingPool := rest\<rparr>)) = rest \<and>
      rooms (createRoom uuidv4 a b (s\<lparr>waitingPool := rest\<rparr>)) =
        (rooms s)(uuidv4 (uuidCalls s) \<mapsto> (a, b)) \<and>
      users (tryMatch uuidv4 s) a =
        map_option (\<lambda>u. u\<lparr>state := IN_CHAT, roomId := Some (uuidv4 (uuidCalls s))\<rparr>) (users s a) \<and>
      users (tryMatch uuidv4 s) b =
        map_option (\<lambda>u. u\<lparr>state := IN_CHAT, roomId := Some (uuidv4 (uuidCalls s))\<rparr>) (users s b) \<and>
      map_option state (users (tryMatch uuidv4 s) a) = Some IN_CHAT \<and>
      map_option roomId (users (tryMatch uuidv4 s) a) = Some (Some (uuidv4 (uuidCalls s))) \<and>
      map_option state (users (tryMatch uuidv4 s) b) = Some IN_CHAT \<and>
      map_option roomId (users (tryMatch uuidv4 s) b) = Some (Some (uuidv4 (uuidCalls s))) \<and>
      (inj uuidv4 \<longrightarrow> rooms (tryMatch uuidv4 s) (uuidv4 (uuidCalls s)) = Some (a, b))"
    if "waitingPool s = a # b # rest" "isSearching (users s a)" "isSearching (users s b)"
  proof -
    let ?s' = "createRoom uuidv4 a b (s\<lparr>waitingPool := rest\<rparr>)"
    let ?r = "uuidv4 (uuidCalls s)"
    let ?f = "\<lambda>u. u\<lparr>state := IN_CHAT, roomId := Some ?r\<rparr>"
    from \<open>isSearching (users s a)\<close> obtain ua where sa: "users s a = Some ua"
      by (cases "users s a") (simp_all add: isSearching_def)
    from \<open>isSearching (users s b)\<close> obtain ub where sb: "users s b = Some ub"
      by (cases "users s b") (simp_all add: isSearching_def)
    note some = sa sb
    from that have step: "matchStep uuidv4 s = ?s'"
      by (simp add: matchStep_def Let_def)
    with that have eq: "tryMatch uuidv4 s = tryMatch uuidv4 ?s'"
      by (simp add: tryMatch.simps [of uuidv4 s])
    have pool: "waitingPool ?s' = rest" by simp
    have rs: "rooms ?s' = (rooms s)(?r \<mapsto> (a, b))" by (simp add: rooms_createRoom)
    have room: "rooms (tryMatch uuidv4 ?s') ?r = Some (a, b)" if uniq: "inj uuidv4"
    proof -
      have "uuidv4 n \<noteq> ?r" if "uuidCalls ?s' \<le> n" for n
        using that uniq by (auto dest: injD)
      then have "rooms (tryMatch uuidv4 ?s') ?r = rooms ?s' ?r"
        by (rule tryMatch_keeps_room)
      then show ?thesis by (simp add: rs)
    qed
    have ua: "users ?s' a = Some (?f ua)"
      using users_createRoom_first [of uuidv4 a b "s\<lparr>waitingPool := rest\<rparr>"] some
      by (simp add: toInChat_def)
    have ub: "users ?s' b = Some (?f ub)"
      using users_createRoom_second [of uuidv4 a b "s\<lparr>waitingPool := rest\<rparr>"] some
      by (simp add: toInChat_def)
    have "users (tryMatch uuidv4 ?s') a = users ?s' a"
      by (rule tryMatch_keeps_user) (simp add: ua isSearching_def)
    with ua eq have fa: "users (tryMatch uuidv4 s) a = Some (?f ua)" by simp
    have "users (tryMatch uuidv4 ?s') b = users ?s' b"
      by (rule tryMatch_keeps_user) (simp add: ub isSearching_def)
    with ub eq have fb: "users (tryMatch uuidv4 s) b = Some (?f ub)" by simp
    from room eq have room': "inj uuidv4 \<longrightarrow> rooms (tryMatch uuidv4 s) ?r = Some (a, b)"
      by simp
    from eq pool rs room' show ?thesis
      unfolding fa fb some by simp
  qed
  have old: "rooms (tryMatch uuidv4 s) r = Some m"
    if "\<forall>n. uuidCalls s \<le> n \<longrightarrow> rooms s (uuidv4 n) = None" "rooms s r = Some m" for r m
  proof -
    have "uuidv4 n \<noteq> r" if "uuidCalls s \<le> n" for n
      using that \<open>\<forall>n. uuidCalls s \<le> n \<longrightarrow> rooms s (uuidv4 n) = None\<close> \<open>rooms s r = Some m\<close>
      by auto
    then have "rooms (tryMatch uuidv4 s) r = rooms s r" by (rule tryMatch_keeps_room)
    with that show ?thesis by simp
  qed
  have short: "length (waitingPool (tryMatch uuidv4 s)) < 2"
    using tryMatch_short [of uuidv4 s] by simp
  from short have again: "tryMatch uuidv4 (tryMatch uuidv4 s) = tryMatch uuidv4 s"
    by (simp add: tryMatch.simps [of uuidv4 "tryMatch uuidv4 s"])
  from none stale1 stale2 pair old short again show ?thesis by blast
qed

theorem tryMatch_contract_witness:
  "inj sampleUuid \<and>
   waitingPool waiting2 = [''x'', ''y''] \<and>
   isSearching (users waiting2 ''x'') \<and> isSearching (users waiting2 ''y'') \<and>
   rooms (tryMatch sampleUuid waiting2) ''r'' = Some (''x'', ''y'') \<and>
   users waiting2 ''x'' = Some (sampleUser SEARCHING None ''px'') \<and>
   users waiting2 ''y'' = Some (sampleUser SEARCHING None ''py'') \<and>
   users (tryMatch sampleUuid waiting2) ''x'' = Some (sampleUser IN_CHAT (Some ''r'') ''px'') \<and>
   users (tryMatch sampleUuid waiting2) ''y'' = Some (sampleUser IN_CHAT (Some ''r'') ''py'') \<and>
   length (waitingPool matched2) < 2 \<and> tryMatch sampleUuid matched2 = matched2 \<and>
   waitingPool staleFirst = [''z'', ''x'', ''y''] \<and> \<not> isSearching (users staleFirst ''z'') \<and>
   tryMatch sampleUuid staleFirst = tryMatch sampleUuid (staleFirst\<lparr>waitingPool := [''x'', ''y'']\<rparr>) \<and>
   waitingPool staleSecond = [''x'', ''z'', ''y''] \<and> isSearching (users staleSecond ''x'') \<and>
   \<not> isSearching (users staleSecond ''z'') \<and>
   tryMatch sampleUuid staleSecond = tryMatch sampleUuid (staleSecond\<lparr>waitingPool := [''x'', ''y'']\<rparr>) \<and>
   rooms matched2 ''r'' = Some (''x'', ''y'') \<and>
   rooms (tryMatch sampleUuid matched2) ''r'' = Some (''x'', ''y'')"
proof -
  have w: "waitingPool waiting2 = [''x'', ''y''] \<and>
      isSearching (users waiting2 ''x'') \<and> isSearching (users waiting2 ''y'') \<and>
      sampleUuid (uuidCalls waiting2) = ''r''"
    by code_simp
  have m: "length (waitingPool matched2) < 2"
    by code_simp
  have f: "waitingPool staleFirst = [''z'', ''x'', ''y''] \<and>
      \<not> isSearching (users staleFirst ''z'')"
    by code_simp
  have g: "waitingPool staleSecond = [''x'', ''z'', ''y''] \<and>
      isSearching (users staleSecond ''x'') \<and> \<not> isSearching (users staleSecond ''z'')"
    by code_simp
  have ne: "''x'' \<noteq> []" by simp
  have us: "users waiting2 ''x'' = Some (sampleUser SEARCHING None ''px'') \<and>
      users waiting2 ''y'' = Some (sampleUser SEARCHING None ''py'')"
    by code_simp
  from w inj_sampleUuid tryMatch_contract [of waiting2 sampleUuid "''x''" "''y''" "[]"]
  have "rooms (tryMatch sampleUuid waiting2) (sampleUuid (uuidCalls waiting2)) =
       Some (''x'', ''y'') \<and>
     users (tryMatch sampleUuid waiting2) ''x'' =
       map_option (\<lambda>u. u\<lparr>state := IN_CHAT, roomId := Some (sampleUuid (uuidCalls waiting2))\<rparr>)
         (users waiting2 ''x'') \<and>
     users (tryMatch sampleUuid waiting2) ''y'' =
       map_option (\<lambda>u. u\<lparr>state := IN_CHAT, roomId := Some (sampleUuid (uuidCalls waiting2))\<rparr>)
         (users waiting2 ''y'')"
    by blast
  with w us have 1: "rooms (tryMatch sampleUuid waiting2) ''r'' = Some (''x'', ''y'') \<and>
     users (tryMatch sampleUuid waiting2) ''x'' = Some (sampleUser IN_CHAT (Some ''r'') ''px'') \<and>
     users (tryMatch sampleUuid waiting2) ''y'' = Some (sampleUser IN_CHAT (Some ''r'') ''py'')"
    by (simp add: sampleUser_def)
  from m tryMatch_contract [of matched2 sampleUuid]
  have 2: "tryMatch sampleUuid matched2 = matched2"
    by blast
  from f ne tryMatch_contract [of staleFirst sampleUuid "''z''" "''x''" "[''y'']"]
  have 3: "tryMatch sampleUuid staleFirst =
      tryMatch sampleUuid (staleFirst\<lparr>waitingPool := [''x'', ''y'']\<rparr>)"
    by blast
  from g ne tryMatch_contract [of staleSecond sampleUuid "''x''" "''z''" "[''y'']"]
  have 4: "tryMatch sampleUuid staleSecond =
      tryMatch sampleUuid (staleSecond\<lparr>waitingPool := [''x'', ''y'']\<rparr>)"
    by blast
  have r: "rooms matched2 ''r'' = Some (''x'', ''y'')" by code_simp
  from r fresh_matched2 tryMatch_contract [of matched2 sampleUuid]
  have 5: "rooms (tryMatch sampleUuid matched2) ''r'' = Some (''x'', ''y'')"
    by blast
  from w us m f g 1 2 3 4 5 r inj_sampleUuid show ?thesis by simp
qed

section \<open>Leaving a chat\<close>

text \<open>
  C5. Let c be IN_CHAT in a registered room whose other member p has a user object.
  Then skip-chat, stop-chat, initiate-report (naming p) and disconnect of c each call
  \<open>tryMatch\<close> on a state whose pool is the old pool with p put at the front if p was
  not in it (on disconnect: put at the front of the old pool without the first entry
  of c), and, for skip-chat only, c put at the back if c was not in it.
\<close>

theorem requeue_positions:
  assumes user: "users s c = Some u"
    and chat: "state u = IN_CHAT"
    and room: "roomId u = Some r" "r \<noteq> []" "rooms s r = Some m"
    and partner: "partnerIn c m = Some p" "users s p = Some v"
  shows
    "skipChat uuidv4 c s = tryMatch uuidv4 (skipChatCleanup c r p s) \<and>
     waitingPool (skipChatCleanup c r p s) =
       (if p \<in> set (waitingPool s) then [] else [p]) @ waitingPool s @
       (if c \<in> set (waitingPool s) then [] else [c]) \<and>
     stopChat uuidv4 c s = tryMatch uuidv4 (stopChatCleanup c r p s) \<and>
     waitingPool (stopChatCleanup c r p s) =
       (if p \<in> set (waitingPool s) then [] else [p]) @ waitingPool s \<and>
     (truthy (persistentId u) \<and> truthy (persistentId v) \<longrightarrow>
        initiateReport uuidv4 c p shot log s =
          invokeReport c p shot log (tryMatch uuidv4 (reportCleanup c r p s))) \<and>
     waitingPool (reportCleanup c r p s) =
       (if p \<in> set (waitingPool s) then [] else [p]) @ waitingPool s \<and>
     handleDisconnect uuidv4 c s =
       (let s1 = emit p PartnerDisconnected (removeFromPool c s);
            s2 = deleteRoom r (tryMatch uuidv4 (disconnectRequeue p s1))
        in s2\<lparr>users := (users s2)(c := None)\<rparr>) \<and>
     waitingPool (disconnectRequeue p (emit p PartnerDisconnected (removeFromPool c s))) =
       p # remove1 c (waitingPool s)"
proof -
  from partner have neq: "p \<noteq> c" by (auto dest: partnerIn_neq)
  from room have tr: "truthy (roomId u)" by (simp add: truthy_def)
  have skip: "skipChat uuidv4 c s = tryMatch uuidv4 (skipChatCleanup c r p s)"
    using user chat room partner tr by (simp add: skipChat_def)
  have stop: "stopChat uuidv4 c s = tryMatch uuidv4 (stopChatCleanup c r p s)"
    using user chat room partner tr by (simp add: stopChat_def)
  have report: "initiateReport uuidv4 c p shot log s =
          invokeReport c p shot log (tryMatch uuidv4 (reportCleanup c r p s))"
    if "truthy (persistentId u)" "truthy (persistentId v)"
    using that user chat room partner tr by (simp add: initiateReport_def reportGuard_def)
  have disc: "handleDisconnect uuidv4 c s =
       (let s1 = emit p PartnerDisconnected (removeFromPool c s);
            s2 = deleteRoom r (tryMatch uuidv4 (disconnectRequeue p s1))
        in s2\<lparr>users := (users s2)(c := None)\<rparr>)"
    using user chat room partner tr
    by (simp add: handleDisconnect_def disconnectRoom_def Let_def)
  from skip stop report disc neq partner show ?thesis
    by (simp add: pool_skipChatCleanup_eq pool_stopChatCleanup_eq pool_reportCleanup_eq
          pool_disconnectRequeue_eq)
qed

theorem requeue_positions_witness:
  "users matched2 ''x'' = Some (sampleUser IN_CHAT (Some ''r'') ''px'') \<and>
   rooms matched2 ''r'' = Some (''x'', ''y'') \<and>
   partnerIn ''x'' (''x'', ''y'') = Some ''y'' \<and>
   users matched2 ''y'' = Some (sampleUser IN_CHAT (Some ''r'') ''py'') \<and>
   waitingPool matched2 = [] \<and>
   skipChat sampleUuid ''x'' matched2 =
     tryMatch sampleUuid (skipChatCleanup ''x'' ''r'' ''y'' matched2) \<and>
   waitingPool (skipChatCleanup ''x'' ''r'' ''y'' matched2) = [''y'', ''x''] \<and>
   waitingPool (stopChatCleanup ''x'' ''r'' ''y'' matched2) = [''y''] \<and>
   waitingPool (reportCleanup ''x'' ''r'' ''y'' matched2) = [''y''] \<and>
   waitingPool (disconnectRequeue ''y''
      (emit ''y'' PartnerDisconnected (removeFromPool ''x'' matched2))) = [''y''] \<and>
   truthy (persistentId (sampleUser IN_CHAT (Some ''r'') ''px'')) \<and>
   truthy (persistentId (sampleUser IN_CHAT (Some ''r'') ''py'')) \<and>
   initiateReport sampleUuid ''x'' ''y'' ''shot'' ''log'' matched2 =
     invokeReport ''x'' ''y'' ''shot'' ''log''
       (tryMatch sampleUuid (reportCleanup ''x'' ''r'' ''y'' matched2))"
proof -
  have pre: "users matched2 ''x'' = Some (sampleUser IN_CHAT (Some ''r'') ''px'') \<and>
      rooms matched2 ''r'' = Some (''x'', ''y'') \<and>
      partnerIn ''x'' (''x'', ''y'') = Some ''y'' \<and>
      users matched2 ''y'' = Some (sampleUser IN_CHAT (Some ''r'') ''py'') \<and>
      waitingPool matched2 = []"
    by code_simp
  have "state (sampleUser IN_CHAT (Some ''r'') ''px'') = IN_CHAT"
    and "roomId (sampleUser IN_CHAT (Some ''r'') ''px'') = Some ''r''"
    and "''r'' \<noteq> []"
    by (simp_all add: sampleUser_def)
  moreover have ids: "truthy (persistentId (sampleUser IN_CHAT (Some ''r'') ''px''))"
      "truthy (persistentId (sampleUser IN_CHAT (Some ''r'') ''py''))"
    by (simp_all add: sampleUser_def truthy_def)
  ultimately have all:
    "skipChat sampleUuid ''x'' matched2 =
       tryMatch sampleUuid (skipChatCleanup ''x'' ''r'' ''y'' matched2) \<and>
     waitingPool (skipChatCleanup ''x'' ''r'' ''y'' matched2) =
       (if ''y'' \<in> set (waitingPool matched2) then [] else [''y'']) @ waitingPool matched2 @
       (if ''x'' \<in> set (waitingPool matched2) then [] else [''x'']) \<and>
     waitingPool (stopChatCleanup ''x'' ''r'' ''y'' matched2) =
       (if ''y'' \<in> set (waitingPool matched2) then [] else [''y'']) @ waitingPool matched2 \<and>
     initiateReport sampleUuid ''x'' ''y'' ''shot'' ''log'' matched2 =
       invokeReport ''x'' ''y'' ''shot'' ''log''
         (tryMatch sampleUuid (reportCleanup ''x'' ''r'' ''y'' matched2)) \<and>
     waitingPool (reportCleanup ''x'' ''r'' ''y'' matched2) =
       (if ''y'' \<in> set (waitingPool matched2) then [] else [''y'']) @ waitingPool matched2 \<and>
     waitingPool (disconnectRequeue ''y''
        (emit ''y'' PartnerDisconnected (removeFromPool ''x'' matched2))) =
       ''y'' # remove1 ''x'' (waitingPool matched2)"
    using pre
      requeue_positions [of matched2 "''x''" "sampleUser IN_CHAT (Some ''r'') ''px''" "''r''"
        "(''x'', ''y'')" "''y''" "sampleUser IN_CHAT (Some ''r'') ''py''" sampleUuid
        "''shot''" "''log''"]
    by blast
  have pool: "waitingPool matched2 = []" using pre by simp
  from all have "waitingPool (skipChatCleanup ''x'' ''r'' ''y'' matched2) = [''y'', ''x'']"
    and "waitingPool (stopChatCleanup ''x'' ''r'' ''y'' matched2) = [''y'']"
    and "waitingPool (reportCleanup ''x'' ''r'' ''y'' matched2) = [''y'']"
    and "waitingPool (disconnectRequeue ''y''
        (emit ''y'' PartnerDisconnected (removeFromPool ''x'' matched2))) = [''y'']"
    unfolding pool by simp_all
  with pre ids all show ?thesis by blast
qed

text \<open>
  C6, as stated, fails: with no live room the skip-chat and stop-chat handlers return at
  their guards, so the pool entry of the acting user stays and its state is not changed.
  Here x is searching and sends stop-chat.
\<close>

theorem no_live_room_cleanup_counterexample:
  "\<not> hasLiveRoom searching1 ''x'' \<and>
   handle sampleUuid (StopChat ''x'') searching1 = searching1 \<and>
   waitingPool searching1 = [''x''] \<and>
   map_option state (users searching1 ''x'') = Some SEARCHING"
proof -
  have pre: "\<not> hasLiveRoom searching1 ''x'' \<and> waitingPool searching1 = [''x''] \<and>
      map_option state (users searching1 ''x'') = Some SEARCHING"
    by code_simp
  then have "stopChat sampleUuid ''x'' searching1 = searching1"
    by (auto simp: stopChat_def split: option.splits)
  with pre show ?thesis by simp
qed

text \<open>
  C6, amended. When the acting user has no live room, skip-chat and stop-chat change
  nothing and send nothing, and \<open>tryMatch\<close> is not called. A disconnect of a socket
  that has a user object then removes the first pool entry of the user and deletes the
  user object, and does nothing else; without a user object it changes nothing.
  initiate-report from a socket with no user object, or whose user is not IN_CHAT or has
  no \<open>roomId\<close>, changes nothing and sends nothing.
\<close>

theorem no_live_room_cleanup:
  "(\<not> hasLiveRoom s c \<longrightarrow>
      skipChat uuidv4 c s = s \<and> stopChat uuidv4 c s = s \<and>
      handleDisconnect uuidv4 c s =
        (case users s c of
           None \<Rightarrow> s
         | Some u \<Rightarrow> s\<lparr>waitingPool := remove1 c (waitingPool s),
                        users := (users s)(c := None)\<rparr>)) \<and>
   ((case users s c of None \<Rightarrow> True | Some u \<Rightarrow> state u \<noteq> IN_CHAT \<or> \<not> truthy (roomId u)) \<longrightarrow>
      initiateReport uuidv4 c p shot log s = s)"
proof -
  have skip: "skipChat uuidv4 c s = s" if "\<not> hasLiveRoom s c"
    using that by (auto simp: skipChat_def hasLiveRoom_def truthy_def split: option.splits)
  have stop: "stopChat uuidv4 c s = s" if "\<not> hasLiveRoom s c"
    using that by (auto simp: stopChat_def hasLiveRoom_def truthy_def split: option.splits)
  have disc: "handleDisconnect uuidv4 c s =
        (case users s c of
           None \<Rightarrow> s
         | Some u \<Rightarrow> s\<lparr>waitingPool := remove1 c (waitingPool s),
                        users := (users s)(c := None)\<rparr>)" if "\<not> hasLiveRoom s c"
    using that
    by (auto simp: handleDisconnect_def disconnectRoom_def removeFromPool_def Let_def
          hasLiveRoom_def truthy_def split: option.splits)
  have report: "initiateReport uuidv4 c p shot log s = s"
    if "case users s c of None \<Rightarrow> True | Some u \<Rightarrow> state u \<noteq> IN_CHAT \<or> \<not> truthy (roomId u)"
    using that by (auto simp: initiateReport_def reportGuard_def split: option.splits)
  from skip stop disc report show ?thesis by blast
qed

theorem no_live_room_cleanup_witness:
  "\<not> hasLiveRoom searching1 ''x'' \<and>
   skipChat sampleUuid ''x'' searching1 = searching1 \<and>
   stopChat sampleUuid ''x'' searching1 = searching1 \<and>
   initiateReport sampleUuid ''x'' ''y'' ''shot'' ''log'' searching1 = searching1 \<and>
   waitingPool (handleDisconnect sampleUuid ''x'' searching1) = [] \<and>
   users (handleDisconnect sampleUuid ''x'' searching1) ''x'' = None \<and>
   emitted (handleDisconnect sampleUuid ''x'' searching1) = emitted searching1 \<and>
   rooms (handleDisconnect sampleUuid ''x'' searching1) = rooms searching1"
proof -
  have pre: "\<not> hasLiveRoom searching1 ''x'' \<and> waitingPool searching1 = [''x''] \<and>
      users searching1 ''x'' = Some (sampleUser SEARCHING None ''px'')"
    by code_simp
  then have "case users searching1 ''x'' of None \<Rightarrow> True
      | Some u \<Rightarrow> state u \<noteq> IN_CHAT \<or> \<not> truthy (roomId u)"
    by (simp add: sampleUser_def)
  with pre no_live_room_cleanup [of searching1 "''x''" sampleUuid "''y''" "''shot''" "''log''"]
  show ?thesis by simp
qed

section \<open>Reports\<close>

text \<open>
  C7. When initiate-report of c naming another socket p passes its guard, the handler
  first does the cleanup (room deleted, c IDLE, p SEARCHING and at the front of the pool
  if it was not in the pool), then calls \<open>tryMatch\<close>, and only then calls the report
  function: that call is the last effect of the handler, and c is still IDLE when it
  is made. When the ids still to come differ from the room's, the room is still
  deleted then. When the call fails, the handler resumes by emitting report-failed to c
  and nothing else: users, pool and rooms stay as they are.
\<close>

theorem report_cleanup_before_call:
  assumes user: "users s c = Some u" "state u = IN_CHAT" "roomId u = Some r" "r \<noteq> []"
    and partner: "users s p = Some v" "p \<noteq> c"
    and ids: "truthy (persistentId u)" "truthy (persistentId v)"
  shows
    "initiateReport uuidv4 c p shot log s =
       invokeReport c p shot log (tryMatch uuidv4 (reportCleanup c r p s)) \<and>
     rooms (reportCleanup c r p s) r = None \<and>
     users (reportCleanup c r p s) c = Some (toIdle u) \<and>
     users (reportCleanup c r p s) p = Some (toSearching v) \<and>
     waitingPool (reportCleanup c r p s) =
       (if p \<in> set (waitingPool s) then [] else [p]) @ waitingPool s \<and>
     emitted (initiateReport uuidv4 c p shot log s) =
       emitted (tryMatch uuidv4 (reportCleanup c r p s)) @
         [InvokeReport (persistentId u) (persistentId v) shot log] \<and>
     users (initiateReport uuidv4 c p shot log s) c = Some (toIdle u) \<and>
     ((\<forall>n. uuidCalls s \<le> n \<longrightarrow> uuidv4 n \<noteq> r) \<longrightarrow>
        rooms (initiateReport uuidv4 c p shot log s) r = None) \<and>
     handle uuidv4 (ReportSettled c False) t = t\<lparr>emitted := emitted t @ [Emit c ReportFailed]\<rparr>"
proof -
  let ?k = "reportCleanup c r p s"
  let ?m = "tryMatch uuidv4 ?k"
  from user have tr: "truthy (roomId u)" by (simp add: truthy_def)
  have run: "initiateReport uuidv4 c p shot log s = invokeReport c p shot log ?m"
    using user partner ids tr by (simp add: initiateReport_def reportGuard_def)
  have actor: "users ?k c = Some (toIdle u)"
    using user partner by (simp add: users_reportCleanup_actor)
  have other: "users ?k p = Some (toSearching v)"
    using partner by (simp add: users_reportCleanup_partner)
  have "users ?m c = users ?k c"
    by (rule tryMatch_keeps_user) (simp add: actor isSearching_def toIdle_def)
  with actor have still: "users ?m c = Some (toIdle u)" by simp
  have "persistentIdOf ?k c = persistentId u"
    using actor by (simp add: persistentIdOf_def toIdle_def)
  then have pu: "persistentIdOf ?m c = persistentId u" by simp
  have "persistentIdOf ?k p = persistentId v"
    using other by (simp add: persistentIdOf_def toSearching_def)
  then have pv: "persistentIdOf ?m p = persistentId v" by simp
  have call: "emitted (invokeReport c p shot log ?m) =
      emitted ?m @ [InvokeReport (persistentId u) (persistentId v) shot log]"
    using pu pv by (simp add: invokeReport_def)
  have gone: "rooms (invokeReport c p shot log ?m) r = None"
    if "\<forall>n. uuidCalls s \<le> n \<longrightarrow> uuidv4 n \<noteq> r"
  proof -
    have "rooms ?m r = rooms ?k r"
      using that by (intro tryMatch_keeps_room) simp
    then show ?thesis by simp
  qed
  have settled: "handle uuidv4 (ReportSettled c False) t =
      t\<lparr>emitted := emitted t @ [Emit c ReportFailed]\<rparr>"
    by (simp add: reportSettled_def emit_def)
  from run actor other still call gone settled show ?thesis
    by (simp add: pool_reportCleanup_eq)
qed

theorem report_cleanup_before_call_witness:
  "users matched2 ''x'' = Some (sampleUser IN_CHAT (Some ''r'') ''px'') \<and>
   users matched2 ''y'' = Some (sampleUser IN_CHAT (Some ''r'') ''py'') \<and>
   rooms matched2 ''r'' = Some (''x'', ''y'') \<and>
   rooms (reportCleanup ''x'' ''r'' ''y'' matched2) ''r'' = None \<and>
   users (reportCleanup ''x'' ''r'' ''y'' matched2) ''x'' = Some (sampleUser IDLE None ''px'') \<and>
   users (reportCleanup ''x'' ''r'' ''y'' matched2) ''y'' = Some (sampleUser SEARCHING None ''py'') \<and>
   waitingPool (reportCleanup ''x'' ''r'' ''y'' matched2) = [''y''] \<and>
   emitted (initiateReport sampleUuid ''x'' ''y'' ''shot'' ''log'' matched2) =
     emitted (tryMatch sampleUuid (reportCleanup ''x'' ''r'' ''y'' matched2)) @
       [InvokeReport (Some ''px'') (Some ''py'') ''shot'' ''log''] \<and>
   rooms (initiateReport sampleUuid ''x'' ''y'' ''shot'' ''log'' matched2) ''r'' = None \<and>
   emitted (handle sampleUuid (ReportSettled ''x'' False) matched2) =
     emitted matched2 @ [Emit ''x'' ReportFailed]"
proof -
  let ?u = "sampleUser IN_CHAT (Some ''r'') ''px''"
  let ?v = "sampleUser IN_CHAT (Some ''r'') ''py''"
  have pre: "users matched2 ''x'' = Some ?u \<and> users matched2 ''y'' = Some ?v \<and>
      rooms matched2 ''r'' = Some (''x'', ''y'') \<and> waitingPool matched2 = [] \<and>
      uuidCalls matched2 = 1"
    by code_simp
  then have x: "users matched2 ''x'' = Some ?u" and y: "users matched2 ''y'' = Some ?v"
    by simp_all
  have u: "state ?u = IN_CHAT" "roomId ?u = Some ''r''" "''r'' \<noteq> []"
    and v: "''y'' \<noteq> ''x''"
    and ids: "truthy (persistentId ?u)" "truthy (persistentId ?v)"
    by (simp_all add: sampleUser_def truthy_def)
  have fresh: "\<forall>n. uuidCalls matched2 \<le> n \<longrightarrow> sampleUuid n \<noteq> ''r''"
    using pre by (auto simp: sampleUuid_def)
  have vals: "toIdle ?u = sampleUser IDLE None ''px''"
      "toSearching ?v = sampleUser SEARCHING None ''py''"
      "persistentId ?u = Some ''px''" "persistentId ?v = Some ''py''"
    by (simp_all add: sampleUser_def toIdle_def toSearching_def)
  note facts = report_cleanup_before_call [OF x u y v ids, of sampleUuid "''shot''" "''log''"
      matched2, THEN conjunct2]
  from pre fresh facts show ?thesis by (simp add: vals)
qed

text \<open>
  C4. The guard of initiate-report does not test that the named socket is the other
  member of the sender's room. Here x is paired with y and names z, who is idle: the
  request is carried out, z is told that its partner disconnected and is put in the
  pool, and the report function is called for z.
\<close>

theorem report_naming_stranger_accepted:
  "rooms paired3 ''r'' = Some (''x'', ''y'') \<and>
   users paired3 ''z'' = Some (sampleUser IDLE None ''pz'') \<and>
   waitingPool paired3 = [] \<and>
   users (handle sampleUuid (InitiateReport ''x'' ''z'' ''shot'' ''log'') paired3) ''z'' =
     Some (sampleUser SEARCHING None ''pz'') \<and>
   users (handle sampleUuid (InitiateReport ''x'' ''z'' ''shot'' ''log'') paired3) ''x'' =
     Some (sampleUser IDLE None ''px'') \<and>
   waitingPool (handle sampleUuid (InitiateReport ''x'' ''z'' ''shot'' ''log'') paired3) = [''z''] \<and>
   rooms (handle sampleUuid (InitiateReport ''x'' ''z'' ''shot'' ''log'') paired3) ''r'' = None \<and>
   emitted (handle sampleUuid (InitiateReport ''x'' ''z'' ''shot'' ''log'') paired3) =
     emitted paired3 @
       [Emit ''z'' PartnerDisconnected, Emit ''x'' PartnerDisconnected,
        Emit ''z'' AutoSearching, InvokeReport (Some ''px'') (Some ''pz'') ''shot'' ''log'']"
  by code_simp

section \<open>Rooms and users\<close>

text \<open>
  C1. The relation between rooms and users (\<open>roomsConsistent\<close>) holds after every
  sequence of events in which each report that passes the guard names the other member
  of the sender's room: that is \<open>rooms_consistent_when_reports_name_partner\<close> above.
  It does not hold after every sequence, because the guard of initiate-report lets any
  named socket through. After x, paired with y in room r, reports itself, y is IN_CHAT
  with room r and r is not registered. After x, paired with y, reports z, who is paired
  with w in room rr, z is SEARCHING and still a member of the registered room rr; when w
  then disconnects, z is paired with itself in room rrr.
\<close>

theorem room_invariant_broken_by_report:
  "users (run sampleUuid selfReport) ''y'' = Some (sampleUser IN_CHAT (Some ''r'') ''py'') \<and>
   rooms (run sampleUuid selfReport) ''r'' = None \<and>
   users (run sampleUuid selfReport) ''x'' = Some (sampleUser SEARCHING None ''px'') \<and>
   users (run sampleUuid strangerReport) ''z'' = Some (sampleUser SEARCHING None ''pz'') \<and>
   rooms (run sampleUuid strangerReport) ''rr'' = Some (''z'', ''w'') \<and>
   rooms (run sampleUuid (strangerReport @ [Disconnect ''w''])) ''rrr'' = Some (''z'', ''z'')"
  by code_simp

end
